theory Spec2Isabelle
  imports Complex_Main "HOL-Library.Word" "HOL-Library.Log_Nat"
begin

unbundle bit_operations_syntax

section \<open>WebMCFont: the layout and atlas-preprocessing engine of \<open>MCFont.js\<close>\<close>

text \<open>
  The development follows \<open>src/MCFont.js\<close>: the metrics builders, the left-margin
  normalization of \<open>glyph_00\<close>, the loading of wide pages and \<open>draw\<close> up to the plan it
  hands to WebGL. \<open>init\<close>, the ASCII path of \<open>_loadAtlas\<close> (comma tweak, quote
  alternates) and the WebGL calls are outside it: the renderer is taken as \<open>init\<close> left
  it. A JavaScript number is an IEEE 754 double: a finite value, an infinity or NaN,
  and every product, sum, difference and quotient is rounded to the nearest double,
  a tie going to the even significand. Typed arrays keep their element width
  (\<open>Uint8Array\<close> as \<open>8 word list\<close>, \<open>Uint16Array\<close> as \<open>16 word list\<close>); a read outside a
  typed array is \<open>undefined\<close> in JavaScript and \<open>None\<close> here.
\<close>

subsection \<open>Numbers\<close>

text \<open>
  The two zeros of IEEE 754 are one value here: they are equal under every comparison
  and differ only as a divisor, and the divisors of the source (an atlas size, a
  count, the constant 2) are never a negative zero.
\<close>

datatype jsnum = Finite real | PInf | NInf | NaN

text \<open>The nearest integer, a tie going to the even one.\<close>

definition roundTiesToEven :: "real \<Rightarrow> int" where
  "roundTiesToEven x =
     (let f = \<lfloor>x\<rfloor>; r = x - real_of_int f
      in if r < 1 / 2 then f else if 1 / 2 < r then f + 1
         else if even f then f else f + 1)"

text \<open>The binary exponent \<open>e\<close> of a number that is not zero: \<open>2^e \<le> |x| < 2^(e+1)\<close>.\<close>

definition exponentOf :: "real \<Rightarrow> int" where
  "exponentOf x =
     (if 1 \<le> \<bar>x\<bar> then bitlen \<lfloor>\<bar>x\<bar>\<rfloor> - 1 else - bitlen (\<lceil>1 / \<bar>x\<bar>\<rceil> - 1))"

text \<open>
  The exponent of the last place of the double nearest to \<open>x\<close>: 52 binary places below
  the leading one, and never below the subnormal spacing \<open>2^-1074\<close>.
\<close>

definition quantum :: "real \<Rightarrow> int" where
  "quantum x = max (exponentOf x - 52) (- 1074)"

text \<open>The magnitude of \<open>x\<close> rounded to a multiple of its quantum.\<close>

definition roundMagnitude :: "real \<Rightarrow> real" where
  "roundMagnitude x =
     (if x = 0 then 0
      else real_of_int (roundTiesToEven (\<bar>x\<bar> / 2 powi quantum x)) * 2 powi quantum x)"

text \<open>
  The double that an exact result \<open>x\<close> is rounded to: an infinity when the rounded
  magnitude reaches \<open>2^1024\<close>.
\<close>

definition toDouble :: "real \<Rightarrow> jsnum" where
  "toDouble x =
     (let y = roundMagnitude x
      in if 2 ^ 1024 \<le> y then (if x < 0 then NInf else PInf)
         else Finite (if x < 0 then - y else y))"

text \<open>\<open>a <= b\<close> and \<open>a < b\<close>: false when either side is NaN.\<close>

fun js_le :: "jsnum \<Rightarrow> jsnum \<Rightarrow> bool" where
  "js_le (Finite a) (Finite b) = (a \<le> b)"
| "js_le (Finite a) PInf = True"
| "js_le (Finite a) NInf = False"
| "js_le PInf (Finite b) = False"
| "js_le PInf PInf = True"
| "js_le PInf NInf = False"
| "js_le NInf (Finite b) = True"
| "js_le NInf PInf = True"
| "js_le NInf NInf = True"
| "js_le NaN b = False"
| "js_le a NaN = False"

fun js_lt :: "jsnum \<Rightarrow> jsnum \<Rightarrow> bool" where
  "js_lt (Finite a) (Finite b) = (a < b)"
| "js_lt (Finite a) PInf = True"
| "js_lt (Finite a) NInf = False"
| "js_lt PInf b = False"
| "js_lt NInf (Finite b) = True"
| "js_lt NInf PInf = True"
| "js_lt NInf NInf = False"
| "js_lt NInf NaN = False"
| "js_lt NaN b = False"
| "js_lt (Finite a) NaN = False"

text \<open>\<open>-a\<close>, \<open>a + b\<close>, \<open>a - b\<close>, \<open>a * b\<close> and \<open>a / b\<close>.\<close>

fun js_neg :: "jsnum \<Rightarrow> jsnum" where
  "js_neg (Finite a) = Finite (- a)"
| "js_neg PInf = NInf"
| "js_neg NInf = PInf"
| "js_neg NaN = NaN"

fun js_add :: "jsnum \<Rightarrow> jsnum \<Rightarrow> jsnum" where
  "js_add (Finite a) (Finite b) = toDouble (a + b)"
| "js_add (Finite a) PInf = PInf"
| "js_add (Finite a) NInf = NInf"
| "js_add PInf (Finite b) = PInf"
| "js_add PInf PInf = PInf"
| "js_add PInf NInf = NaN"
| "js_add NInf (Finite b) = NInf"
| "js_add NInf PInf = NaN"
| "js_add NInf NInf = NInf"
| "js_add NaN b = NaN"
| "js_add a NaN = NaN"

definition js_sub :: "jsnum \<Rightarrow> jsnum \<Rightarrow> jsnum" where
  "js_sub a b = js_add a (js_neg b)"

fun js_mul :: "jsnum \<Rightarrow> jsnum \<Rightarrow> jsnum" where
  "js_mul (Finite a) (Finite b) = toDouble (a * b)"
| "js_mul (Finite a) PInf = (if a = 0 then NaN else if 0 < a then PInf else NInf)"
| "js_mul (Finite a) NInf = (if a = 0 then NaN else if 0 < a then NInf else PInf)"
| "js_mul PInf (Finite b) = (if b = 0 then NaN else if 0 < b then PInf else NInf)"
| "js_mul NInf (Finite b) = (if b = 0 then NaN else if 0 < b then NInf else PInf)"
| "js_mul PInf PInf = PInf"
| "js_mul PInf NInf = NInf"
| "js_mul NInf PInf = NInf"
| "js_mul NInf NInf = PInf"
| "js_mul NaN b = NaN"
| "js_mul a NaN = NaN"

text \<open>A zero divisor is the positive zero.\<close>

fun js_div :: "jsnum \<Rightarrow> jsnum \<Rightarrow> jsnum" where
  "js_div (Finite a) (Finite b) =
     (if b = 0 then (if a = 0 then NaN else if 0 < a then PInf else NInf)
      else toDouble (a / b))"
| "js_div (Finite a) PInf = Finite 0"
| "js_div (Finite a) NInf = Finite 0"
| "js_div PInf (Finite b) = (if 0 \<le> b then PInf else NInf)"
| "js_div NInf (Finite b) = (if 0 \<le> b then NInf else PInf)"
| "js_div PInf PInf = NaN"
| "js_div PInf NInf = NaN"
| "js_div NInf PInf = NaN"
| "js_div NInf NInf = NaN"
| "js_div NaN b = NaN"
| "js_div a NaN = NaN"

text \<open>\<open>Math.round\<close>: the nearest integer, a tie going up; an infinity and NaN are kept.\<close>

fun js_round :: "jsnum \<Rightarrow> jsnum" where
  "js_round (Finite a) = Finite (real_of_int \<lfloor>a + 1 / 2\<rfloor>)"
| "js_round PInf = PInf"
| "js_round NInf = NInf"
| "js_round NaN = NaN"

text \<open>\<open>Math.max(a, b)\<close>: NaN when either argument is.\<close>

definition js_max :: "jsnum \<Rightarrow> jsnum \<Rightarrow> jsnum" where
  "js_max a b = (if a = NaN \<or> b = NaN then NaN else if js_le a b then b else a)"

text \<open>The values a JavaScript number can hold: the doubles, the infinities and NaN.\<close>

definition isDouble :: "jsnum \<Rightarrow> bool" where
  "isDouble a = (case a of Finite x \<Rightarrow> toDouble x = Finite x | _ \<Rightarrow> True)"

subsection \<open>Opacity maps (\<open>_scanAlpha\<close>'s result)\<close>

record scan =
  alpha :: "8 word list"
  width :: nat
  height :: nat

text \<open>\<open>alpha[i]\<close>: \<open>undefined\<close> outside the array.\<close>

definition alpha_at :: "scan \<Rightarrow> int \<Rightarrow> 8 word option" where
  "alpha_at sc i =
     (if 0 \<le> i \<and> i < int (length (alpha sc)) then Some (alpha sc ! nat i) else None)"

text \<open>\<open>alpha[y * width + x] > 0\<close>; \<open>undefined > 0\<close> is false.\<close>

definition opaque_at :: "scan \<Rightarrow> int \<Rightarrow> int \<Rightarrow> bool" where
  "opaque_at sc x y =
     (case alpha_at sc (y * int (width sc) + x) of Some a \<Rightarrow> 0 < a | None \<Rightarrow> False)"

subsection \<open>\<open>_buildAdvance\<close>\<close>

text \<open>\<open>colHasOpaque(x, y0, y1)\<close>: the loop \<open>for (let y = y0; y <= y1; y++)\<close>.\<close>

function colHasOpaque :: "scan \<Rightarrow> int \<Rightarrow> int \<Rightarrow> int \<Rightarrow> bool" where
  "colHasOpaque sc x y y1 =
     (if y \<le> y1 then (if opaque_at sc x y then True else colHasOpaque sc x (y + 1) y1)
      else False)"
  by pat_completeness auto
termination
  by (relation "measure (\<lambda>(sc, x, y, y1). nat (y1 + 1 - y))") auto

declare colHasOpaque.simps [simp del]

text \<open>\<open>for (; left <= x1; left++) if (colHasOpaque(left, y0, y1)) break;\<close>\<close>

function scanLeft :: "scan \<Rightarrow> int \<Rightarrow> int \<Rightarrow> int \<Rightarrow> int \<Rightarrow> int" where
  "scanLeft sc left x1 y0 y1 =
     (if left \<le> x1 then (if colHasOpaque sc left y0 y1 then left
                          else scanLeft sc (left + 1) x1 y0 y1)
      else left)"
  by pat_completeness auto
termination
  by (relation "measure (\<lambda>(sc, left, x1, y0, y1). nat (x1 + 1 - left))") auto

declare scanLeft.simps [simp del]

text \<open>\<open>for (; right >= x0; right--) if (colHasOpaque(right, y0, y1)) break;\<close>\<close>

function scanRight :: "scan \<Rightarrow> int \<Rightarrow> int \<Rightarrow> int \<Rightarrow> int \<Rightarrow> int" where
  "scanRight sc right x0 y0 y1 =
     (if right \<ge> x0 then (if colHasOpaque sc right y0 y1 then right
                           else scanRight sc (right - 1) x0 y0 y1)
      else right)"
  by pat_completeness auto
termination
  by (relation "measure (\<lambda>(sc, right, x0, y0, y1). nat (right + 1 - x0))") auto

declare scanRight.simps [simp del]

text \<open>
  One round of \<open>for (let idx = 0; idx < 256; idx++)\<close>: the value stored in \<open>adv[idx]\<close>.
  \<open>adv\<close> is a \<open>Uint16Array\<close>, so the store keeps the low 16 bits.
\<close>

definition tileAdvance :: "scan \<Rightarrow> nat \<Rightarrow> nat \<Rightarrow> nat \<Rightarrow> 16 word" where
  "tileAdvance sc tileW tileH idx =
     (let cx = idx mod 16; cy = idx div 16;
          x0 = int (cx * tileW); x1 = x0 + int tileW - 1;
          y0 = int (cy * tileH); y1 = y0 + int tileH - 1;
          left = scanLeft sc x0 x1 y0 y1;
          right = scanRight sc x1 x0 y0 y1
      in if right < left then of_nat tileW
         else (let visible = right - left + 1 in of_int (visible + 1)))"

definition buildAdvance :: "scan \<Rightarrow> nat \<Rightarrow> nat \<Rightarrow> 16 word list" where
  "buildAdvance sc tileW tileH = map (tileAdvance sc tileW tileH) [0..<256]"

subsection \<open>The advance table, as the specification words it\<close>

text \<open>The pixel rectangle of tile \<open>idx\<close> in a 16-column grid.\<close>

definition tileX0 :: "nat \<Rightarrow> nat \<Rightarrow> int" where
  "tileX0 tileW idx = int ((idx mod 16) * tileW)"

definition tileX1 :: "nat \<Rightarrow> nat \<Rightarrow> int" where
  "tileX1 tileW idx = tileX0 tileW idx + int tileW - 1"

definition tileY0 :: "nat \<Rightarrow> nat \<Rightarrow> int" where
  "tileY0 tileH idx = int ((idx div 16) * tileH)"

definition tileY1 :: "nat \<Rightarrow> nat \<Rightarrow> int" where
  "tileY1 tileH idx = tileY0 tileH idx + int tileH - 1"

text \<open>The tile has some opaque pixel (alpha above 0).\<close>

definition tileHasOpaque :: "scan \<Rightarrow> nat \<Rightarrow> nat \<Rightarrow> nat \<Rightarrow> bool" where
  "tileHasOpaque sc tileW tileH idx =
     (\<exists>x \<in> {tileX0 tileW idx .. tileX1 tileW idx}.
        \<exists>y \<in> {tileY0 tileH idx .. tileY1 tileH idx}. opaque_at sc x y)"

text \<open>The columns of the tile that are opaque: some pixel of the tile's rows is.\<close>

definition opaqueCols :: "scan \<Rightarrow> nat \<Rightarrow> nat \<Rightarrow> nat \<Rightarrow> int set" where
  "opaqueCols sc tileW tileH idx =
     {x \<in> {tileX0 tileW idx .. tileX1 tileW idx}.
        \<exists>y \<in> {tileY0 tileH idx .. tileY1 tileH idx}. opaque_at sc x y}"

text \<open>The rows of the tile that are opaque: some pixel of the tile's columns is.\<close>

definition opaqueRows :: "scan \<Rightarrow> nat \<Rightarrow> nat \<Rightarrow> nat \<Rightarrow> int set" where
  "opaqueRows sc tileW tileH idx =
     {y \<in> {tileY0 tileH idx .. tileY1 tileH idx}.
        \<exists>x \<in> {tileX0 tileW idx .. tileX1 tileW idx}. opaque_at sc x y}"

subsection \<open>\<open>_buildVerticalMetrics\<close>\<close>

record vmet =
  centerRow :: jsnum
  vmet_tileH :: nat

text \<open>
  The inner loop \<open>for (let x = x0; x <= x1; x++)\<close> of both row scans: whether row \<open>y\<close>
  has a pixel with \<open>alpha[y * width + x] > 0\<close>.
\<close>

function rowHasOpaque :: "scan \<Rightarrow> int \<Rightarrow> int \<Rightarrow> int \<Rightarrow> bool" where
  "rowHasOpaque sc y x x1 =
     (if x \<le> x1 then (if opaque_at sc x y then True else rowHasOpaque sc y (x + 1) x1)
      else False)"
  by pat_completeness auto
termination
  by (relation "measure (\<lambda>(sc, y, x, x1). nat (x1 + 1 - x))") auto

declare rowHasOpaque.simps [simp del]

text \<open>
  \<open>outerTop\<close>: \<open>top\<close> starts at -1; the first row from \<open>y0\<close> upwards with an opaque
  pixel is stored in \<open>top\<close> and ends both loops.
\<close>

function scanTop :: "scan \<Rightarrow> int \<Rightarrow> int \<Rightarrow> int \<Rightarrow> int \<Rightarrow> int" where
  "scanTop sc y y1 x0 x1 =
     (if y \<le> y1 then (if rowHasOpaque sc y x0 x1 then y else scanTop sc (y + 1) y1 x0 x1)
      else - 1)"
  by pat_completeness auto
termination
  by (relation "measure (\<lambda>(sc, y, y1, x0, x1). nat (y1 + 1 - y))") auto

declare scanTop.simps [simp del]

text \<open>\<open>outerBottom\<close>: the same from \<open>y1\<close> downwards.\<close>

function scanBottom :: "scan \<Rightarrow> int \<Rightarrow> int \<Rightarrow> int \<Rightarrow> int \<Rightarrow> int" where
  "scanBottom sc y y0 x0 x1 =
     (if y \<ge> y0 then (if rowHasOpaque sc y x0 x1 then y else scanBottom sc (y - 1) y0 x0 x1)
      else - 1)"
  by pat_completeness auto
termination
  by (relation "measure (\<lambda>(sc, y, y0, x0, x1). nat (y + 1 - y0))") auto

declare scanBottom.simps [simp del]

text \<open>
  One round of \<open>for (let idx = 0; idx < 256; idx++)\<close> on the accumulators
  \<open>(sumCenter, count)\<close>: \<open>sumCenter += ((top + bottom) / 2 - y0)\<close>.
\<close>

definition vmTile :: "scan \<Rightarrow> nat \<Rightarrow> nat \<Rightarrow> nat \<Rightarrow> jsnum \<times> nat \<Rightarrow> jsnum \<times> nat" where
  "vmTile sc tileW tileH idx acc =
     (case acc of (sumCenter, count) \<Rightarrow>
        let cx = idx mod 16; cy = idx div 16;
            x0 = int (cx * tileW); x1 = x0 + int tileW - 1;
            y0 = int (cy * tileH); y1 = y0 + int tileH - 1;
            top = scanTop sc y0 y1 x0 x1;
            bottom = scanBottom sc y1 y0 x0 x1
        in if top \<ge> 0 \<and> bottom \<ge> 0
           then (js_add sumCenter
                   (js_sub (js_div (js_add (Finite (real_of_int top)) (Finite (real_of_int bottom)))
                                   (Finite 2))
                           (Finite (real_of_int y0))),
                 count + 1)
           else (sumCenter, count))"

text \<open>\<open>centerRow = count ? (sumCenter / count) : (tileH / 2)\<close>.\<close>

definition buildVerticalMetrics :: "scan \<Rightarrow> nat \<Rightarrow> nat \<Rightarrow> vmet" where
  "buildVerticalMetrics sc tileW tileH =
     (case fold (vmTile sc tileW tileH) [0..<256] (Finite 0, 0) of (sumCenter, count) \<Rightarrow>
        \<lparr>centerRow = (if count \<noteq> 0 then js_div sumCenter (Finite (real count))
                      else js_div (Finite (real tileH)) (Finite 2)),
         vmet_tileH = tileH\<rparr>)"

subsection \<open>The vertical center, as the specification words it\<close>

text \<open>
  The local center of a tile with an opaque pixel, as a real number: (topmost opaque
  row + bottommost opaque row) / 2 - the tile's top row.
\<close>

definition localCenter :: "scan \<Rightarrow> nat \<Rightarrow> nat \<Rightarrow> nat \<Rightarrow> real" where
  "localCenter sc tileW tileH idx =
     real_of_int (Min (opaqueRows sc tileW tileH idx) + Max (opaqueRows sc tileW tileH idx)) / 2
       - real_of_int (tileY0 tileH idx)"

text \<open>The tiles, of the 256, that have an opaque pixel.\<close>

definition nonEmptyTiles :: "scan \<Rightarrow> nat \<Rightarrow> nat \<Rightarrow> nat list" where
  "nonEmptyTiles sc tileW tileH = filter (tileHasOpaque sc tileW tileH) [0..<256]"

text \<open>
  The arithmetic mean of the local centers of those tiles, as a real number, and
  \<open>tileH / 2\<close> when there is none.
\<close>

definition meanCenter :: "scan \<Rightarrow> nat \<Rightarrow> nat \<Rightarrow> real" where
  "meanCenter sc tileW tileH =
     (if nonEmptyTiles sc tileW tileH = [] then real tileH / 2
      else (\<Sum>idx \<leftarrow> nonEmptyTiles sc tileW tileH. localCenter sc tileW tileH idx)
             / real (length (nonEmptyTiles sc tileW tileH)))"

text \<open>
  An opacity map for tiles 1 pixel wide and 2 high, 16 tiles to the row: tiles 0 and 2
  have their top pixel opaque, tile 3 has both.
\<close>

definition threeTiles :: scan where
  "threeTiles =
     \<lparr>alpha = [255, 0, 255, 255, 0, 0, 0, 0, 0, 0, 0, 0, 0, 0, 0, 0,
               0, 0, 0, 255, 0, 0, 0, 0, 0, 0, 0, 0, 0, 0, 0, 0],
      width = 16, height = 2\<rparr>"

subsection \<open>Canvas pixels and \<open>ImageData\<close>\<close>

text \<open>
  A pixel is its four bytes (red, green, blue, alpha). The source reads and writes the
  four bytes of a pixel together and tests only the alpha byte, so an \<open>ImageData\<close>
  array is a list of pixels: the source's byte index \<open>(y * tileW + x) * 4\<close> is the pixel
  index \<open>y * tileW + x\<close> here. A canvas is its size and its pixel at each coordinate;
  JavaScript reaches it only through \<open>getImageData\<close> and \<open>putImageData\<close>.
\<close>

type_synonym rgba = "8 word \<times> 8 word \<times> 8 word \<times> 8 word"

definition transparent :: rgba where
  "transparent = (0, 0, 0, 0)"

definition alphaOf :: "rgba \<Rightarrow> 8 word" where
  "alphaOf p = (case p of (r, g, b, a) \<Rightarrow> a)"

record canvas =
  cv_width :: nat
  cv_height :: nat
  cv_px :: "nat \<Rightarrow> nat \<Rightarrow> rgba"

text \<open>A read of an \<open>ImageData\<close> array: outside the array the bytes read are \<open>undefined\<close>,
  which a store turns into 0 and \<open>> 0\<close> into false, as for a transparent pixel.\<close>

definition imagePixel :: "rgba list \<Rightarrow> nat \<Rightarrow> rgba" where
  "imagePixel data i = (if i < length data then data ! i else transparent)"

text \<open>The canvas pixel at a coordinate: transparent black outside the canvas.\<close>

definition canvasPixel :: "canvas \<Rightarrow> nat \<Rightarrow> nat \<Rightarrow> rgba" where
  "canvasPixel cv x y =
     (if x < cv_width cv \<and> y < cv_height cv then cv_px cv x y else transparent)"

text \<open>\<open>ctx.getImageData(sx, sy, sw, sh).data\<close>, row by row.\<close>

definition getImageData :: "canvas \<Rightarrow> nat \<Rightarrow> nat \<Rightarrow> nat \<Rightarrow> nat \<Rightarrow> rgba list" where
  "getImageData cv sx sy sw sh =
     map (\<lambda>i. canvasPixel cv (sx + i mod sw) (sy + i div sw)) [0..<sw * sh]"

text \<open>\<open>ctx.putImageData(img, dx, dy)\<close> for an image of \<open>sw\<close> by \<open>sh\<close> pixels: the part
  outside the canvas is dropped.\<close>

definition putImageData :: "canvas \<Rightarrow> rgba list \<Rightarrow> nat \<Rightarrow> nat \<Rightarrow> nat \<Rightarrow> nat \<Rightarrow> canvas" where
  "putImageData cv img dx dy sw sh =
     cv\<lparr>cv_px := (\<lambda>x y.
        if dx \<le> x \<and> x < dx + sw \<and> dy \<le> y \<and> y < dy + sh
           \<and> x < cv_width cv \<and> y < cv_height cv
        then imagePixel img ((y - dy) * sw + (x - dx))
        else cv_px cv x y)\<rparr>"

text \<open>\<open>ctx.createImageData(sw, sh).data\<close>: transparent black.\<close>

definition createImageData :: "nat \<Rightarrow> nat \<Rightarrow> rgba list" where
  "createImageData sw sh = replicate (sw * sh) transparent"

subsection \<open>\<open>_normalizeGlyph00LeftMargins\<close>\<close>

text \<open>Here \<open>tileW = 16\<close>, \<open>tileH = 16\<close>, \<open>grid = 16\<close>, \<open>start = 32\<close> and \<open>end = 126\<close>.\<close>

text \<open>\<open>leftOpaqueX\<close>, inner loop \<open>for (let y = 0; y < tileH; y++)\<close> at column \<open>x\<close>.\<close>

function leftOpaqueY :: "rgba list \<Rightarrow> nat \<Rightarrow> nat \<Rightarrow> bool" where
  "leftOpaqueY data x y =
     (if y < 16 then (if 0 < alphaOf (imagePixel data (y * 16 + x)) then True
                      else leftOpaqueY data x (y + 1))
      else False)"
  by pat_completeness auto
termination
  by (relation "measure (\<lambda>(data, x, y). 16 - y)") auto

declare leftOpaqueY.simps [simp del]

text \<open>\<open>leftOpaqueX\<close>, outer loop \<open>for (let x = 0; x < tileW; x++)\<close>; -1 when no pixel
  is opaque.\<close>

function leftOpaqueFrom :: "rgba list \<Rightarrow> nat \<Rightarrow> int" where
  "leftOpaqueFrom data x =
     (if x < 16 then (if leftOpaqueY data x 0 then int x else leftOpaqueFrom data (x + 1))
      else - 1)"
  by pat_completeness auto
termination
  by (relation "measure (\<lambda>(data, x). 16 - x)") auto

declare leftOpaqueFrom.simps [simp del]

definition leftOpaqueX :: "rgba list \<Rightarrow> int" where
  "leftOpaqueX data = leftOpaqueFrom data 0"

text \<open>
  The copy loops over \<open>y\<close> and \<open>x\<close>: \<open>nx = x - shift\<close>; a pixel with \<open>nx < 0\<close> is
  skipped, any other is stored at \<open>(nx, y)\<close> of \<open>dst\<close>.
\<close>

definition shiftPixel :: "rgba list \<Rightarrow> int \<Rightarrow> nat \<Rightarrow> nat \<Rightarrow> rgba list \<Rightarrow> rgba list" where
  "shiftPixel src shift y x dst =
     (let si = y * 16 + x; nx = int x - shift
      in if nx < 0 then dst
         else (let di = nat (int (y * 16) + nx) in dst[di := imagePixel src si]))"

definition shiftTile :: "rgba list \<Rightarrow> int \<Rightarrow> rgba list" where
  "shiftTile src shift =
     fold (\<lambda>y. fold (shiftPixel src shift y) [0..<16]) [0..<16] (createImageData 16 16)"

text \<open>One round of \<open>for (let code = start; code <= end; code++)\<close>.\<close>

definition normalizeTile :: "nat \<Rightarrow> canvas \<Rightarrow> canvas" where
  "normalizeTile code cv =
     (let cx = code mod 16; cy = code div 16;
          x0 = cx * 16; y0 = cy * 16;
          src = getImageData cv x0 y0 16 16;
          left = leftOpaqueX src
      in if left \<le> 1 then cv
         else (let shift = left - 1; dst = shiftTile src shift
               in putImageData cv dst x0 y0 16 16))"

definition normalizeGlyph00LeftMargins :: "canvas \<Rightarrow> canvas" where
  "normalizeGlyph00LeftMargins cv = fold normalizeTile [32..<127] cv"

text \<open>The pixels of the tile of \<open>code\<close> in a 16 by 16 grid of 16-pixel tiles.\<close>

definition tilePixels :: "canvas \<Rightarrow> nat \<Rightarrow> rgba list" where
  "tilePixels cv code = getImageData cv ((code mod 16) * 16) ((code div 16) * 16) 16 16"

text \<open>Pixel \<open>(x, y)\<close> of a 16 by 16 \<open>ImageData\<close> is opaque (alpha above 0); a column is
  opaque when one of its 16 pixels is.\<close>

definition pixelOpaque :: "rgba list \<Rightarrow> nat \<Rightarrow> nat \<Rightarrow> bool" where
  "pixelOpaque data x y = (0 < alphaOf (imagePixel data (y * 16 + x)))"

definition colOpaque :: "rgba list \<Rightarrow> nat \<Rightarrow> bool" where
  "colOpaque data x = (\<exists>y < 16. pixelOpaque data x y)"

subsection \<open>Text\<close>

text \<open>
  A JavaScript string is a list of UTF-16 code units. \<open>text.codePointAt(i)\<close> reads the
  code point that starts at unit \<open>i\<close> (every call of the source has \<open>i < text.length\<close>);
  \<open>[...text]\<close> and \<open>for (const ch of text)\<close> walk the string code point by code point,
  and \<open>ch.codePointAt(0)\<close> is that code point.
\<close>

type_synonym jsstring = "16 word list"

definition isLead :: "nat \<Rightarrow> bool" where
  "isLead u = (0xD800 \<le> u \<and> u \<le> 0xDBFF)"

definition isTrail :: "nat \<Rightarrow> bool" where
  "isTrail u = (0xDC00 \<le> u \<and> u \<le> 0xDFFF)"

definition pairCodePoint :: "nat \<Rightarrow> nat \<Rightarrow> nat" where
  "pairCodePoint lead trail = (lead - 0xD800) * 0x400 + (trail - 0xDC00) + 0x10000"

definition codePointAt :: "jsstring \<Rightarrow> nat \<Rightarrow> nat" where
  "codePointAt s i =
     (let first = unat (s ! i)
      in if isLead first \<and> i + 1 < length s \<and> isTrail (unat (s ! (i + 1)))
         then pairCodePoint first (unat (s ! (i + 1)))
         else first)"

fun codePoints :: "jsstring \<Rightarrow> nat list" where
  "codePoints [] = []"
| "codePoints [a] = [unat a]"
| "codePoints (a # b # s) =
     (if isLead (unat a) \<and> isTrail (unat b)
      then pairCodePoint (unat a) (unat b) # codePoints s
      else unat a # codePoints (b # s))"

subsection \<open>Options, atlases and the renderer\<close>

datatype mode = ModeAuto | ModeMixed | ModeDefault | ModeGlyph

datatype baseline = BaselineAscii | BaselineGlyph | BaselineAuto

datatype align = AlignLeft | AlignCenter | AlignRight

text \<open>The options of \<open>draw\<close>; the numeric ones are any JavaScript numbers.\<close>

record opts =
  color :: string
  align :: align
  scale :: jsnum
  shadow :: bool
  ds :: jsnum
  spaceMul :: jsnum
  spacingMul :: jsnum
  mode :: mode
  baseline :: baseline
  lockLineH :: bool
  glyphTrackPx :: jsnum
  asciiAfterGlyphPadPx :: jsnum

text \<open>The defaults of \<open>draw\<close>'s destructuring.\<close>

definition defaultOpts :: opts where
  "defaultOpts =
     \<lparr>color = ''#ffffff'', align = AlignLeft, scale = Finite 2, shadow = True,
      ds = Finite (3 / 2), spaceMul = Finite (1 / 2), spacingMul = Finite 1,
      mode = ModeAuto, baseline = BaselineAscii, lockLineH = True,
      glyphTrackPx = Finite 2, asciiAfterGlyphPadPx = Finite (5 / 2)\<rparr>"

text \<open>
  A pack, as \<open>_loadAtlas\<close> returns it (the texture handle left out); a quote-alternate
  pack has a size only.
\<close>

record pack =
  pack_w :: nat
  pack_h :: nat
  pack_scan :: scan
  adv :: "16 word list"
  vmet :: vmet

record quotePack =
  quote_w :: nat
  quote_h :: nat

text \<open>
  The renderer after \<open>init\<close>: \<open>this.ascii\<close>, \<open>this.glyphs\<close> (keyed by page, "00" to
  "FF"), \<open>this.quoteAlt\<close> (keyed by 34 and 39) and the canvas size that \<open>_resize\<close> left.
\<close>

record renderer =
  ascii :: "pack option"
  glyphs :: "string \<Rightarrow> pack option"
  quoteAlt :: "nat \<Rightarrow> quotePack option"
  canvas_width :: int
  canvas_height :: int

text \<open>\<open>pack.adv[i]\<close>: \<open>undefined\<close> outside the array.\<close>

definition advAt :: "pack \<Rightarrow> nat \<Rightarrow> nat option" where
  "advAt p i = (if i < length (adv p) then Some (unat (adv p ! i)) else None)"

text \<open>\<open>pack.adv[i] ?? d\<close>, as a number.\<close>

definition advOr :: "pack \<Rightarrow> nat \<Rightarrow> real \<Rightarrow> jsnum" where
  "advOr p i d = (case advAt p i of Some a \<Rightarrow> Finite (real a) | None \<Rightarrow> Finite d)"

subsection \<open>Loading wide pages: \<open>_scanAlpha\<close>, \<open>_loadAtlas\<close>, \<open>_ensureGlyphPacks\<close>\<close>

text \<open>
  \<open>_scanAlpha\<close>: the alpha byte of every pixel. \<open>getImageData\<close> throws an
  \<open>IndexSizeError\<close> when the width or the height is 0.
\<close>

definition scanAlpha :: "canvas \<Rightarrow> scan option" where
  "scanAlpha source =
     (if cv_width source = 0 \<or> cv_height source = 0 then None
      else Some \<lparr>alpha = map alphaOf
                    (getImageData source 0 0 (cv_width source) (cv_height source)),
                 width = cv_width source, height = cv_height source\<rparr>)"

text \<open>
  The call \<open>_loadAtlas(`${basePath}/glyph_${hi}.png`, 16, 16, false)\<close> of
  \<open>_ensureGlyphPacks\<close>. \<open>images hi\<close> is the decoded image at that URL, \<open>None\<close> when it
  fails to load; the URL ends in \<open>glyph_00.png\<close> exactly for page "00". \<open>None\<close> is a
  rejected promise.
\<close>

definition loadAtlas :: "(string \<Rightarrow> canvas option) \<Rightarrow> string \<Rightarrow> pack option" where
  "loadAtlas images hi =
     (case images hi of
        None \<Rightarrow> None
      | Some img \<Rightarrow>
          (let src = (if hi = ''00'' then normalizeGlyph00LeftMargins img else img)
           in case scanAlpha src of
                None \<Rightarrow> None
              | Some sc \<Rightarrow>
                  Some \<lparr>pack_w = cv_width src, pack_h = cv_height src, pack_scan = sc,
                        adv = buildAdvance sc 16 16,
                        vmet = buildVerticalMetrics sc 16 16\<rparr>))"

text \<open>
  \<open>_ensureGlyphPacks(set)\<close>: every page of the set that is not cached is loaded and
  cached. The result is the pages whose load failed (the promise rejects when there
  is one) and \<open>this.glyphs\<close> once every job has settled.
\<close>

definition ensureGlyphPacks ::
  "(string \<Rightarrow> canvas option) \<Rightarrow> string set \<Rightarrow> (string \<Rightarrow> pack option)
     \<Rightarrow> string set \<times> (string \<Rightarrow> pack option)" where
  "ensureGlyphPacks images need cache =
     ({hi \<in> need. cache hi = None \<and> loadAtlas images hi = None},
      (\<lambda>hi. if hi \<in> need \<and> cache hi = None then loadAtlas images hi else cache hi))"

subsection \<open>\<open>draw\<close>: helpers and mode\<close>

definition isAsciiCode :: "nat \<Rightarrow> bool" where
  "isAsciiCode cp = (cp \<le> 0x7F)"

text \<open>Two upper-case hexadecimal digits of a byte.\<close>

definition hexDigit :: "nat \<Rightarrow> char" where
  "hexDigit d = ''0123456789ABCDEF'' ! d"

definition hex2 :: "nat \<Rightarrow> string" where
  "hex2 b = [hexDigit (b div 16), hexDigit (b mod 16)]"

definition codeHi :: "nat \<Rightarrow> string" where
  "codeHi cp = hex2 (and (drop_bit 8 cp) 0xFF)"

definition codeLo :: "nat \<Rightarrow> nat" where
  "codeLo cp = and cp 0xFF"

text \<open>
  \<open>defaultOnly\<close>: \<open>true\<close> (only the ASCII atlas), \<open>false\<close> (only wide pages), \<open>null\<close>
  (mixed), here \<open>Some True\<close>, \<open>Some False\<close> and \<open>None\<close>.
\<close>

definition defaultOnly_of :: "mode \<Rightarrow> jsstring \<Rightarrow> bool option" where
  "defaultOnly_of m text =
     (if m = ModeDefault then Some True
      else if m = ModeGlyph then Some False
      else if m = ModeMixed then None
      else Some (list_all isAsciiCode (codePoints text)))"

text \<open>The set \<open>need\<close> passed to \<open>_ensureGlyphPacks\<close>.\<close>

definition need_of :: "mode \<Rightarrow> bool option \<Rightarrow> jsstring \<Rightarrow> string set" where
  "need_of m dOnly text =
     (let need0 = (if dOnly = Some False \<or> m = ModeGlyph then {''00''} else {})
      in if dOnly = Some False \<or> m = ModeGlyph
         then need0 \<union> codeHi ` set (codePoints text)
         else if dOnly = None
         then need0 \<union> codeHi ` {cp \<in> set (codePoints text). \<not> isAsciiCode cp}
         else need0)"

definition hasGlyph_of :: "mode \<Rightarrow> bool option \<Rightarrow> jsstring \<Rightarrow> bool" where
  "hasGlyph_of m dOnly text =
     (m = ModeGlyph
      \<or> (m = ModeMixed \<and> list_ex (\<lambda>cp. \<not> isAsciiCode cp) (codePoints text))
      \<or> (m = ModeAuto \<and> dOnly \<noteq> Some True))"

text \<open>\<open>dp(n) = Math.round(n * scale)\<close>.\<close>

definition dp :: "jsnum \<Rightarrow> jsnum \<Rightarrow> jsnum" where
  "dp sc n = js_round (js_mul n sc)"

definition lineH_of :: "opts \<Rightarrow> bool option \<Rightarrow> jsnum" where
  "lineH_of opt dOnly =
     (if lockLineH opt then dp (scale opt) (Finite 16)
      else if dOnly = Some True
      then dp (scale opt) (js_max (js_mul (Finite 8) (ds opt)) (Finite 16))
      else dp (scale opt) (Finite 16))"

definition refCenter_of :: "opts \<Rightarrow> bool \<Rightarrow> pack \<Rightarrow> pack option \<Rightarrow> jsnum" where
  "refCenter_of opt hasGlyph asciiPk g00 =
     (if baseline opt = BaselineAscii
      then js_mul (centerRow (vmet asciiPk)) (if hasGlyph then Finite 2 else ds opt)
      else if baseline opt = BaselineGlyph
      then (case g00 of Some g \<Rightarrow> centerRow (vmet g)
                      | None \<Rightarrow> js_mul (centerRow (vmet asciiPk)) (Finite 2))
      else if hasGlyph
      then (case g00 of Some g \<Rightarrow> centerRow (vmet g)
                      | None \<Rightarrow> js_mul (centerRow (vmet asciiPk)) (Finite 2))
      else js_mul (centerRow (vmet asciiPk)) (ds opt))"

subsection \<open>\<open>draw\<close>: spans\<close>

text \<open>
  The atlas a quad draws from. Packs are compared by identity in the source; each slot
  of the renderer holds an object of its own, so the slot names the object.
\<close>

datatype packRef = AsciiPack | GlyphPack string | QuoteAltPack nat

record quad =
  q_pack :: packRef
  q_x :: jsnum
  q_y :: jsnum
  q_w :: jsnum
  q_h :: jsnum
  q_u0 :: jsnum
  q_v0 :: jsnum
  q_u1 :: jsnum
  q_v1 :: jsnum

datatype kind = KindAscii | KindGlyph

text \<open>The variables of the loop: \<open>penX\<close>, \<open>prevKind\<close>, \<open>dqCount\<close>, \<open>sqCount\<close>, \<open>spans\<close>.\<close>

record lstate =
  penX :: jsnum
  prevKind :: "kind option"
  dqCount :: nat
  sqCount :: nat
  spans :: "quad list"

text \<open>
  What \<open>pushAscii\<close>, \<open>pushGlyph\<close> and the loop body read from their closure and never
  change: six options, \<open>defaultOnly\<close>, \<open>asciiPack\<close>, \<open>glyph00\<close>, \<open>this.glyphs\<close>,
  \<open>this.quoteAlt\<close> and \<open>refCenter\<close>.
\<close>

record closure =
  c_scale :: jsnum
  c_ds :: jsnum
  c_spaceMul :: jsnum
  c_spacingMul :: jsnum
  c_glyphTrackPx :: jsnum
  c_asciiAfterGlyphPadPx :: jsnum
  defaultOnly :: "bool option"
  asciiPack :: pack
  glyph00 :: "pack option"
  c_glyphs :: "string \<Rightarrow> pack option"
  c_quoteAlt :: "nat \<Rightarrow> quotePack option"
  refCenter :: jsnum

text \<open>
  The quote block of \<open>pushAscii\<close>: the pack, the four UVs and the two counters after it,
  given the UVs of the default tile.
\<close>

definition quoteSwap ::
  "closure \<Rightarrow> nat \<Rightarrow> lstate \<Rightarrow> jsnum \<times> jsnum \<times> jsnum \<times> jsnum
     \<Rightarrow> packRef \<times> (jsnum \<times> jsnum \<times> jsnum \<times> jsnum) \<times> nat \<times> nat" where
  "quoteSwap c code st uv =
     (if defaultOnly c \<noteq> Some False then
        (if code = 34 then
           (let dq = dqCount st + 1
            in if dq mod 2 = 1 \<and> c_quoteAlt c 34 \<noteq> None
               then (QuoteAltPack 34, (Finite 0, Finite 0, Finite 1, Finite 1), dq, sqCount st)
               else (AsciiPack, uv, dq, sqCount st))
         else if code = 39 then
           (let sq = sqCount st + 1
            in if sq mod 2 = 1 \<and> c_quoteAlt c 39 \<noteq> None
               then (QuoteAltPack 39, (Finite 0, Finite 0, Finite 1, Finite 1), dqCount st, sq)
               else (AsciiPack, uv, dqCount st, sq))
         else (AsciiPack, uv, dqCount st, sqCount st))
      else (AsciiPack, uv, dqCount st, sqCount st))"

definition pushAscii :: "closure \<Rightarrow> nat \<Rightarrow> lstate \<Rightarrow> lstate" where
  "pushAscii c code st =
     (let pen = (if defaultOnly c = None \<and> prevKind st = Some KindGlyph
                    \<and> js_lt (Finite 0) (c_asciiAfterGlyphPadPx c)
                 then js_add (penX st) (js_round (js_mul (c_scale c) (c_asciiAfterGlyphPadPx c)))
                 else penX st);
          cx = code mod 16; cy = code div 16;
          uv = (js_div (Finite (real (cx * 8))) (Finite (real (pack_w (asciiPack c)))),
                js_div (Finite (real (cy * 8))) (Finite (real (pack_h (asciiPack c)))),
                js_div (Finite (real ((cx + 1) * 8))) (Finite (real (pack_w (asciiPack c)))),
                js_div (Finite (real ((cy + 1) * 8))) (Finite (real (pack_h (asciiPack c)))))
      in case quoteSwap c code st uv of (pk, (u0, v0, u1, v1), dq, sq) \<Rightarrow>
          (let myCenter = js_mul (centerRow (vmet (asciiPack c))) (c_ds c);
               yShift = js_round (dp (c_scale c) (js_sub (refCenter c) myCenter));
               a = advOr (asciiPack c) code 9
           in \<lparr>penX = js_add pen
                        (js_round (js_mul (dp (c_scale c) (js_mul a (c_ds c))) (c_spacingMul c))),
               prevKind = Some KindAscii,
               dqCount = dq, sqCount = sq,
               spans = spans st @
                 [\<lparr>q_pack = pk, q_x = pen, q_y = yShift,
                   q_w = dp (c_scale c) (js_mul (Finite 8) (c_ds c)),
                   q_h = dp (c_scale c) (js_mul (Finite 8) (c_ds c)),
                   q_u0 = u0, q_v0 = v0, q_u1 = u1, q_v1 = v1\<rparr>]\<rparr>))"

text \<open>\<open>this.glyphs.get(hi) || glyph00 || asciiPack\<close>.\<close>

definition glyphPack :: "closure \<Rightarrow> string \<Rightarrow> packRef \<times> pack" where
  "glyphPack c hi =
     (case c_glyphs c hi of
        Some p \<Rightarrow> (GlyphPack hi, p)
      | None \<Rightarrow> (case glyph00 c of
                   Some p \<Rightarrow> (GlyphPack ''00'', p)
                 | None \<Rightarrow> (AsciiPack, asciiPack c)))"

definition pushGlyph :: "closure \<Rightarrow> nat \<Rightarrow> lstate \<Rightarrow> lstate" where
  "pushGlyph c code st =
     (let pen = (if js_lt (Finite 0) (c_glyphTrackPx c) \<and> prevKind st = Some KindGlyph
                 then js_add (penX st) (js_round (js_mul (c_scale c) (c_glyphTrackPx c)))
                 else penX st);
          hi = codeHi code
      in case glyphPack c hi of (pk, p) \<Rightarrow>
          (let lo = codeLo code;
               cx = lo mod 16; cy = lo div 16;
               u0 = js_div (Finite (real (cx * 16))) (Finite (real (pack_w p)));
               v0 = js_div (Finite (real (cy * 16))) (Finite (real (pack_h p)));
               u1 = js_div (Finite (real ((cx + 1) * 16))) (Finite (real (pack_w p)));
               v1 = js_div (Finite (real ((cy + 1) * 16))) (Finite (real (pack_h p)));
               myCenter = js_mul (centerRow (vmet p)) (Finite 1);
               yShift = js_round (dp (c_scale c) (js_sub (refCenter c) myCenter));
               a = advOr p lo 17
           in \<lparr>penX = js_add pen (js_round (js_mul (dp (c_scale c) a) (c_spacingMul c))),
               prevKind = Some KindGlyph,
               dqCount = dqCount st, sqCount = sqCount st,
               spans = spans st @
                 [\<lparr>q_pack = pk, q_x = pen, q_y = yShift,
                   q_w = dp (c_scale c) (Finite 16), q_h = dp (c_scale c) (Finite 16),
                   q_u0 = u0, q_v0 = v0, q_u1 = u1, q_v1 = v1\<rparr>]\<rparr>))"

text \<open>\<open>findPrev\<close>: \<open>for (let j = i - 1; j >= 0; j--)\<close>, called as \<open>findPrev text i\<close>.\<close>

fun findPrev :: "jsstring \<Rightarrow> nat \<Rightarrow> nat option" where
  "findPrev text 0 = None"
| "findPrev text (Suc j) =
     (let c2 = codePointAt text j in if c2 \<noteq> 32 then Some c2 else findPrev text j)"

text \<open>\<open>findNext\<close>: \<open>for (let j = i + 1; j < text.length; j++)\<close>, called as
  \<open>findNext text (i + 1)\<close>.\<close>

function findNext :: "jsstring \<Rightarrow> nat \<Rightarrow> nat option" where
  "findNext text j =
     (if j < length text
      then (let c2 = codePointAt text j in if c2 \<noteq> 32 then Some c2 else findNext text (j + 1))
      else None)"
  by pat_completeness auto
termination
  by (relation "measure (\<lambda>(text, j). length text - j)") auto

declare findNext.simps [simp del]

text \<open>The two space advances of the loop body.\<close>

definition asciiSpace :: "closure \<Rightarrow> jsnum" where
  "asciiSpace c =
     js_round (js_mul (dp (c_scale c) (js_mul (advOr (asciiPack c) 32 9) (c_ds c)))
                      (c_spaceMul c))"

definition glyphSpace :: "closure \<Rightarrow> jsnum" where
  "glyphSpace c =
     (let advG = (case glyph00 c of Some g \<Rightarrow> advOr g 32 17 | None \<Rightarrow> Finite 17)
      in js_round (js_mul (dp (c_scale c) advG) (c_spaceMul c)))"

text \<open>The body of \<open>for (let i = 0; i < text.length; i++)\<close>.\<close>

definition drawStep :: "closure \<Rightarrow> jsstring \<Rightarrow> nat \<Rightarrow> lstate \<Rightarrow> lstate" where
  "drawStep c text i st =
     (let cp = codePointAt text i
      in if cp = 32 then
           (let step =
              (if defaultOnly c = None then
                 (let prev = findPrev text i; next = findNext text (i + 1);
                      bothAscii =
                        ((case prev of Some p \<Rightarrow> isAsciiCode p | None \<Rightarrow> False)
                         \<and> (case next of Some n \<Rightarrow> isAsciiCode n | None \<Rightarrow> False))
                  in if bothAscii then asciiSpace c else glyphSpace c)
               else if defaultOnly c = Some True then asciiSpace c
               else glyphSpace c)
            in st\<lparr>penX := js_add (penX st) step, prevKind := None\<rparr>)
         else if defaultOnly c = Some True then pushAscii c cp st
         else if defaultOnly c = Some False then pushGlyph c cp st
         else (if isAsciiCode cp then pushAscii c cp st else pushGlyph c cp st))"

function drawLoop :: "closure \<Rightarrow> jsstring \<Rightarrow> nat \<Rightarrow> lstate \<Rightarrow> lstate" where
  "drawLoop c text i st =
     (if i < length text then drawLoop c text (i + 1) (drawStep c text i st) else st)"
  by pat_completeness auto
termination
  by (relation "measure (\<lambda>(c, text, i, st). length text - i)") auto

declare drawLoop.simps [simp del]

definition initialState :: lstate where
  "initialState =
     \<lparr>penX = Finite 0, prevKind = None, dqCount = 0, sqCount = 0, spans = []\<rparr>"

subsection \<open>\<open>draw\<close>: alignment, batching and the whole call\<close>

text \<open>Batch by texture: a new run starts when the pack differs from the last run's.\<close>

definition pushRun :: "quad \<Rightarrow> (packRef \<times> quad list) list \<Rightarrow> (packRef \<times> quad list) list" where
  "pushRun s runs =
     (if runs = [] \<or> fst (last runs) \<noteq> q_pack s then runs @ [(q_pack s, [s])]
      else butlast runs @ [(fst (last runs), snd (last runs) @ [s])])"

definition batchRuns :: "quad list \<Rightarrow> (packRef \<times> quad list) list" where
  "batchRuns qs = fold pushRun qs []"

text \<open>
  What one call lays out and hands to WebGL: the spans, the pen travel, the line
  height, the reference center, the origin, the runs, and the passes (the colour and
  the offset of each pass over all runs; \<open>None\<close> is the shadow colour).
\<close>

record plan =
  p_spans :: "quad list"
  p_penX :: jsnum
  p_lineH :: jsnum
  p_refCenter :: jsnum
  p_baseX :: jsnum
  p_baseY :: jsnum
  p_runs :: "(packRef \<times> quad list) list"
  p_passes :: "(string option \<times> jsnum \<times> jsnum) list"

definition closure_of :: "opts \<Rightarrow> bool option \<Rightarrow> pack \<Rightarrow> renderer \<Rightarrow> jsnum \<Rightarrow> closure" where
  "closure_of opt dOnly asciiPk this refC =
     \<lparr>c_scale = scale opt, c_ds = ds opt, c_spaceMul = spaceMul opt,
      c_spacingMul = spacingMul opt, c_glyphTrackPx = glyphTrackPx opt,
      c_asciiAfterGlyphPadPx = asciiAfterGlyphPadPx opt,
      defaultOnly = dOnly, asciiPack = asciiPk, glyph00 = glyphs this ''00'',
      c_glyphs = glyphs this, c_quoteAlt = quoteAlt this, refCenter = refC\<rparr>"

text \<open>
  \<open>draw(text, opts)\<close> on a renderer, with the images the page loads would find. The
  result is \<open>Inr None\<close> when \<open>this.ascii\<close> is not loaded (the call returns at once),
  \<open>Inl pages\<close> when the promise rejects because these pages failed to load, and the plan
  otherwise; the renderer comes back with the pages it cached.
\<close>

definition draw ::
  "(string \<Rightarrow> canvas option) \<Rightarrow> renderer \<Rightarrow> jsstring \<Rightarrow> opts
     \<Rightarrow> (string set + plan option) \<times> renderer" where
  "draw images this text opt =
     (case ascii this of
        None \<Rightarrow> (Inr None, this)
      | Some asciiPk \<Rightarrow>
          (let dOnly = defaultOnly_of (mode opt) text;
               need = need_of (mode opt) dOnly text;
               loaded = ensureGlyphPacks images need (glyphs this);
               this' = this\<lparr>glyphs := snd loaded\<rparr>
           in if fst loaded \<noteq> {} then (Inl (fst loaded), this')
              else
               (let hasGlyph = hasGlyph_of (mode opt) dOnly text;
                    lineH = lineH_of opt dOnly;
                    refC = refCenter_of opt hasGlyph asciiPk (glyphs this' ''00'');
                    st = drawLoop (closure_of opt dOnly asciiPk this' refC) text 0 initialState;
                    baseX = (if align opt = AlignCenter
                             then js_div (js_sub (Finite (real_of_int (canvas_width this')))
                                                 (penX st)) (Finite 2)
                             else if align opt = AlignRight
                             then js_sub (Finite (real_of_int (canvas_width this'))) (penX st)
                             else Finite 0);
                    baseY = js_div (js_sub (Finite (real_of_int (canvas_height this'))) lineH)
                                   (Finite 2)
                in (Inr (Some \<lparr>p_spans = spans st, p_penX = penX st, p_lineH = lineH,
                               p_refCenter = refC, p_baseX = baseX, p_baseY = baseY,
                               p_runs = batchRuns (spans st),
                               p_passes =
                                 (if shadow opt
                                  then [(None, js_round (scale opt), js_round (scale opt))]
                                  else [])
                                 @ [(Some (color opt), Finite 0, Finite 0)]\<rparr>),
                    this'))))"

subsection \<open>Notions used to state the properties of \<open>draw\<close>\<close>

text \<open>The loop's variables when round \<open>j\<close> starts, from the initial state.\<close>

definition stateAt :: "closure \<Rightarrow> jsstring \<Rightarrow> nat \<Rightarrow> lstate" where
  "stateAt c text j = fold (drawStep c text) [0..<j] initialState"

text \<open>
  The position in \<open>spans\<close> of the quad pushed in round \<open>i\<close>: the number of earlier
  rounds that are not a space.
\<close>

definition quadIndex :: "jsstring \<Rightarrow> nat \<Rightarrow> nat" where
  "quadIndex text i = length (filter (\<lambda>k. codePointAt text k \<noteq> 32) [0..<i])"

text \<open>How many of the rounds before \<open>i\<close> read the code point \<open>q\<close>.\<close>

definition occurrences :: "jsstring \<Rightarrow> nat \<Rightarrow> nat \<Rightarrow> nat" where
  "occurrences text q i = length (filter (\<lambda>k. codePointAt text k = q) [0..<i])"

text \<open>
  Whether round \<open>i\<close> (not a space) goes through \<open>pushGlyph\<close>: always in forced-wide
  mode, for a code point above 0x7F in mixed mode, never in ASCII-only mode.
\<close>

definition wideRound :: "bool option \<Rightarrow> jsstring \<Rightarrow> nat \<Rightarrow> bool" where
  "wideRound dOnly text i =
     (codePointAt text i \<noteq> 32
      \<and> (dOnly = Some False \<or> (dOnly = None \<and> \<not> isAsciiCode (codePointAt text i))))"



text \<open>
  The renderer once the pages a call needs are requested, and the closure the call
  lays the text out with (given \<open>this.ascii\<close>).
\<close>

definition rendererAfter ::
  "(string \<Rightarrow> canvas option) \<Rightarrow> renderer \<Rightarrow> jsstring \<Rightarrow> opts \<Rightarrow> renderer" where
  "rendererAfter images this text opt =
     this\<lparr>glyphs := snd (ensureGlyphPacks images
        (need_of (mode opt) (defaultOnly_of (mode opt) text) text) (glyphs this))\<rparr>"

definition closureFor ::
  "(string \<Rightarrow> canvas option) \<Rightarrow> renderer \<Rightarrow> jsstring \<Rightarrow> opts \<Rightarrow> pack \<Rightarrow> closure" where
  "closureFor images this text opt asciiPk =
     closure_of opt (defaultOnly_of (mode opt) text) asciiPk
       (rendererAfter images this text opt)
       (refCenter_of opt
          (hasGlyph_of (mode opt) (defaultOnly_of (mode opt) text) text) asciiPk
          (glyphs (rendererAfter images this text opt) ''00''))"

text \<open>The pen at which a wide and an ASCII quad are pushed (after tracking or padding).\<close>

definition glyphPen :: "closure \<Rightarrow> lstate \<Rightarrow> jsnum" where
  "glyphPen c st =
     (if js_lt (Finite 0) (c_glyphTrackPx c) \<and> prevKind st = Some KindGlyph
      then js_add (penX st) (js_round (js_mul (c_scale c) (c_glyphTrackPx c))) else penX st)"

definition asciiPen :: "closure \<Rightarrow> lstate \<Rightarrow> jsnum" where
  "asciiPen c st =
     (if defaultOnly c = None \<and> prevKind st = Some KindGlyph
         \<and> js_lt (Finite 0) (c_asciiAfterGlyphPadPx c)
      then js_add (penX st) (js_round (js_mul (c_scale c) (c_asciiAfterGlyphPadPx c)))
      else penX st)"

text \<open>The UVs of tile \<open>(code % 16, code / 16)\<close> of 8-pixel tiles, and the UVs of a quad.\<close>

definition asciiUV :: "pack \<Rightarrow> nat \<Rightarrow> jsnum \<times> jsnum \<times> jsnum \<times> jsnum" where
  "asciiUV p code =
     (js_div (Finite (real ((code mod 16) * 8))) (Finite (real (pack_w p))),
      js_div (Finite (real ((code div 16) * 8))) (Finite (real (pack_h p))),
      js_div (Finite (real ((code mod 16 + 1) * 8))) (Finite (real (pack_w p))),
      js_div (Finite (real ((code div 16 + 1) * 8))) (Finite (real (pack_h p))))"

text \<open>The UVs of tile \<open>(lo % 16, lo / 16)\<close> of 16-pixel tiles.\<close>

definition wideUV :: "pack \<Rightarrow> nat \<Rightarrow> jsnum \<times> jsnum \<times> jsnum \<times> jsnum" where
  "wideUV p lo =
     (js_div (Finite (real ((lo mod 16) * 16))) (Finite (real (pack_w p))),
      js_div (Finite (real ((lo div 16) * 16))) (Finite (real (pack_h p))),
      js_div (Finite (real ((lo mod 16 + 1) * 16))) (Finite (real (pack_w p))),
      js_div (Finite (real ((lo div 16 + 1) * 16))) (Finite (real (pack_h p))))"

definition quadUV :: "quad \<Rightarrow> jsnum \<times> jsnum \<times> jsnum \<times> jsnum" where
  "quadUV q = (q_u0 q, q_v0 q, q_u1 q, q_v1 q)"

text \<open>The multipliers of a closure are not negative.\<close>

definition nonneg :: "closure \<Rightarrow> bool" where
  "nonneg c =
     (js_le (Finite 0) (c_scale c) \<and> js_le (Finite 0) (c_ds c)
      \<and> js_le (Finite 0) (c_spaceMul c) \<and> js_le (Finite 0) (c_spacingMul c))"

subsection \<open>Example inputs\<close>

text \<open>
  A loaded ASCII atlas (128 by 128, every advance 6), a wide page (256 by 256, every
  advance 12), a wide page whose advance table is empty, and a renderer that has
  cached pages "00" and "AC" and both quote alternates.
\<close>

definition asciiExample :: pack where
  "asciiExample =
     \<lparr>pack_w = 128, pack_h = 128, pack_scan = \<lparr>alpha = [], width = 128, height = 128\<rparr>,
      adv = replicate 256 6, vmet = \<lparr>centerRow = Finite (7 / 2), vmet_tileH = 8\<rparr>\<rparr>"

definition wideExample :: pack where
  "wideExample =
     \<lparr>pack_w = 256, pack_h = 256, pack_scan = \<lparr>alpha = [], width = 256, height = 256\<rparr>,
      adv = replicate 256 12, vmet = \<lparr>centerRow = Finite (15 / 2), vmet_tileH = 16\<rparr>\<rparr>"


definition exampleRenderer :: renderer where
  "exampleRenderer =
     \<lparr>ascii = Some asciiExample,
      glyphs = (\<lambda>hi. if hi = ''00'' \<or> hi = ''AC'' then Some wideExample else None),
      quoteAlt = (\<lambda>q. if q = 34 \<or> q = 39 then Some \<lparr>quote_w = 8, quote_h = 8\<rparr> else None),
      canvas_width = 640, canvas_height = 480\<rparr>"

definition noImages :: "string \<Rightarrow> canvas option" where
  "noImages hi = None"



definition fiveSixths :: jsnum where
  "fiveSixths = Finite (7505999378950827 / 9007199254740992)"

definition lowExample :: pack where
  "lowExample =
     \<lparr>pack_w = 256, pack_h = 256, pack_scan = \<lparr>alpha = [], width = 256, height = 256\<rparr>,
      adv = replicate 256 12, vmet = \<lparr>centerRow = fiveSixths, vmet_tileH = 16\<rparr>\<rparr>"

definition sevenExample :: pack where
  "sevenExample =
     \<lparr>pack_w = 256, pack_h = 256, pack_scan = \<lparr>alpha = [], width = 256, height = 256\<rparr>,
      adv = replicate 256 12, vmet = \<lparr>centerRow = Finite 7, vmet_tileH = 16\<rparr>\<rparr>"

definition tieRenderer :: renderer where
  "tieRenderer =
     \<lparr>ascii = Some asciiExample,
      glyphs = (\<lambda>hi. if hi = ''00'' then Some sevenExample
                     else if hi = ''AC'' then Some lowExample else None),
      quoteAlt = (\<lambda>q. None),
      canvas_width = 640, canvas_height = 480\<rparr>"


text \<open>A scale whose products overflow: \<open>2^1023\<close>, a finite double.\<close>

definition hugeScale :: jsnum where
  "hugeScale = Finite (2 ^ 1023)"

section \<open>Properties\<close>

subsection \<open>Double arithmetic\<close>

text \<open>Rounding to the nearest integer.\<close>

lemma rte_int [simp]: "roundTiesToEven (real_of_int n) = n"
  by (simp add: roundTiesToEven_def)

lemma rte_bounds: "\<lfloor>x\<rfloor> \<le> roundTiesToEven x" "roundTiesToEven x \<le> \<lfloor>x\<rfloor> + 1"
  by (simp_all add: roundTiesToEven_def Let_def)

lemma rte_mono:
  assumes "x \<le> y"
  shows "roundTiesToEven x \<le> roundTiesToEven y"
proof (cases "\<lfloor>x\<rfloor> = \<lfloor>y\<rfloor>")
  case True
  have "x - real_of_int \<lfloor>y\<rfloor> \<le> y - real_of_int \<lfloor>y\<rfloor>" using assms by simp
  then show ?thesis
    unfolding roundTiesToEven_def Let_def True by auto
next
  case False
  have "\<lfloor>x\<rfloor> \<le> \<lfloor>y\<rfloor>" using assms by (rule floor_mono)
  with False have "\<lfloor>x\<rfloor> + 1 \<le> \<lfloor>y\<rfloor>" by simp
  with rte_bounds(2)[of x] rte_bounds(1)[of y] show ?thesis by linarith
qed

lemma rte_nonneg: "0 \<le> x \<Longrightarrow> 0 \<le> roundTiesToEven x"
  using rte_mono[of 0 x] rte_int[of 0] by simp

lemma rte_le: "x \<le> real_of_int n \<Longrightarrow> roundTiesToEven x \<le> n"
  using rte_mono[of x "real_of_int n"] by simp

lemma rte_ge: "real_of_int n \<le> x \<Longrightarrow> n \<le> roundTiesToEven x"
  using rte_mono[of "real_of_int n" x] by simp

lemma exponentOf_bounds:
  assumes "x \<noteq> 0"
  shows "2 powi exponentOf x \<le> \<bar>x\<bar>" and "\<bar>x\<bar> < 2 powi (exponentOf x + 1)"
proof -
  have "2 powi exponentOf x \<le> \<bar>x\<bar> \<and> \<bar>x\<bar> < 2 powi (exponentOf x + 1)"
  proof (cases "1 \<le> \<bar>x\<bar>")
    case True
    let ?n = "\<lfloor>\<bar>x\<bar>\<rfloor>"
    have n: "0 < ?n" using True by simp
    from bitlen_bounds[OF n] have lo: "2 ^ nat (bitlen ?n - 1) \<le> ?n"
      and hi: "?n < 2 ^ nat (bitlen ?n)" by simp_all
    have b: "1 \<le> bitlen ?n" using n by (simp add: bitlen_alt_def)
    have e: "exponentOf x = bitlen ?n - 1" using True by (simp add: exponentOf_def)
    have "2 powi exponentOf x = real_of_int (2 ^ nat (bitlen ?n - 1))"
      using b by (simp add: e power_int_nonneg_exp)
    also have "\<dots> \<le> real_of_int ?n" using lo by linarith
    also have "\<dots> \<le> \<bar>x\<bar>" by simp
    finally have 1: "2 powi exponentOf x \<le> \<bar>x\<bar>" .
    have "?n + 1 \<le> 2 ^ nat (bitlen ?n)" using hi by simp
    then have "real_of_int (?n + 1) \<le> real_of_int (2 ^ nat (bitlen ?n))" by linarith
    moreover have "\<bar>x\<bar> < real_of_int (?n + 1)" by linarith
    moreover have "2 powi (exponentOf x + 1) = real_of_int (2 ^ nat (bitlen ?n))"
      using b by (simp add: e power_int_nonneg_exp)
    ultimately have "\<bar>x\<bar> < 2 powi (exponentOf x + 1)" by linarith
    with 1 show ?thesis by simp
  next
    case False
    let ?y = "1 / \<bar>x\<bar>"
    let ?n = "\<lceil>?y\<rceil> - 1"
    have x: "0 < \<bar>x\<bar>" "\<bar>x\<bar> < 1" using assms False by simp_all
    then have y: "1 < ?y" by simp
    then have "1 < \<lceil>?y\<rceil>" by linarith
    then have n: "0 < ?n" by simp
    from bitlen_bounds[OF n] have lo: "2 ^ nat (bitlen ?n - 1) \<le> ?n"
      and hi: "?n < 2 ^ nat (bitlen ?n)" by simp_all
    have b: "1 \<le> bitlen ?n" using n by (simp add: bitlen_alt_def)
    have e: "exponentOf x = - bitlen ?n" using False by (simp add: exponentOf_def)
    have "?n + 1 \<le> 2 ^ nat (bitlen ?n)" using hi by simp
    then have "real_of_int (?n + 1) \<le> real_of_int (2 ^ nat (bitlen ?n))" by linarith
    moreover have "?y \<le> real_of_int (?n + 1)" by simp
    moreover have "real_of_int (2 ^ nat (bitlen ?n)) = 2 ^ nat (bitlen ?n)" by simp
    ultimately have yle: "?y \<le> 2 ^ nat (bitlen ?n)" by linarith
    have "real_of_int (2 ^ nat (bitlen ?n - 1)) \<le> real_of_int ?n" using lo by linarith
    moreover have "real_of_int ?n < ?y" by linarith
    moreover have "real_of_int (2 ^ nat (bitlen ?n - 1)) = 2 ^ nat (bitlen ?n - 1)" by simp
    ultimately have ygt: "2 ^ nat (bitlen ?n - 1) < ?y" by linarith
    have neg: "(2::real) powi (- j) = 1 / 2 ^ nat j" if "0 \<le> j" for j
      using that by (simp add: power_int_minus_divide power_int_nonneg_exp)
    have p1: "(2::real) powi exponentOf x = 1 / 2 ^ nat (bitlen ?n)"
      unfolding e using b by (intro neg) simp
    have p2: "(2::real) powi (exponentOf x + 1) = 1 / 2 ^ nat (bitlen ?n - 1)"
    proof -
      have "exponentOf x + 1 = - (bitlen ?n - 1)" by (simp add: e)
      then show ?thesis using b neg[of "bitlen ?n - 1"] by simp
    qed
    have "1 / 2 ^ nat (bitlen ?n) \<le> \<bar>x\<bar>"
      using yle x(1) by (simp add: field_simps)
    moreover have "\<bar>x\<bar> < 1 / 2 ^ nat (bitlen ?n - 1)"
      using ygt x(1) by (simp add: field_simps)
    ultimately show ?thesis by (simp add: p1 p2)
  qed
  then show "2 powi exponentOf x \<le> \<bar>x\<bar>" and "\<bar>x\<bar> < 2 powi (exponentOf x + 1)" by simp_all
qed

lemma powi_strict_mono: "a < b \<Longrightarrow> (2::real) powi a < 2 powi b"
  by (simp add: power_int_strict_increasing)

lemma powi_mono: "a \<le> b \<Longrightarrow> (2::real) powi a \<le> 2 powi b"
  by (simp add: power_int_increasing)

lemma exponentOf_unique:
  assumes "2 powi e \<le> \<bar>x\<bar>" "\<bar>x\<bar> < 2 powi (e + 1)"
  shows "exponentOf x = e"
proof -
  have nz: "x \<noteq> 0"
  proof
    assume "x = 0"
    with assms(1) have "(2::real) powi e \<le> 0" by simp
    moreover have "0 < (2::real) powi e" by simp
    ultimately show False by linarith
  qed
  note b = exponentOf_bounds[OF nz]
  have "\<not> exponentOf x < e"
  proof
    assume "exponentOf x < e"
    then have "exponentOf x + 1 \<le> e" by simp
    then have "(2::real) powi (exponentOf x + 1) \<le> 2 powi e" by (rule powi_mono)
    with b(2) assms(1) show False by linarith
  qed
  moreover have "\<not> e < exponentOf x"
  proof
    assume "e < exponentOf x"
    then have "e + 1 \<le> exponentOf x" by simp
    then have "(2::real) powi (e + 1) \<le> 2 powi exponentOf x" by (rule powi_mono)
    with b(1) assms(2) show False by linarith
  qed
  ultimately show ?thesis by linarith
qed

lemma exponentOf_mono:
  assumes "x \<noteq> 0" "\<bar>x\<bar> \<le> \<bar>y\<bar>"
  shows "exponentOf x \<le> exponentOf y"
proof (rule ccontr)
  assume "\<not> exponentOf x \<le> exponentOf y"
  then have "exponentOf y + 1 \<le> exponentOf x" by simp
  then have "(2::real) powi (exponentOf y + 1) \<le> 2 powi exponentOf x" by (rule powi_mono)
  moreover have "y \<noteq> 0" using assms by auto
  ultimately show False
    using exponentOf_bounds(1)[OF assms(1)] exponentOf_bounds(2)[OF \<open>y \<noteq> 0\<close>] assms(2)
    by linarith
qed

lemma exponentOf_abs [simp]: "exponentOf \<bar>x\<bar> = exponentOf x" "exponentOf (- x) = exponentOf x"
  by (simp_all add: exponentOf_def)

lemma quantum_abs [simp]: "quantum \<bar>x\<bar> = quantum x" "quantum (- x) = quantum x"
  by (simp_all add: quantum_def)

lemma roundMagnitude_abs [simp]:
  "roundMagnitude \<bar>x\<bar> = roundMagnitude x" "roundMagnitude (- x) = roundMagnitude x"
  by (simp_all add: roundMagnitude_def)

lemma roundMagnitude_nonneg: "0 \<le> roundMagnitude x"
  by (simp add: roundMagnitude_def rte_nonneg)

text \<open>The scaled magnitude stays below 2^53, and is at least 2^52 for a normal number.\<close>

lemma scaled_upper:
  assumes "x \<noteq> 0"
  shows "\<bar>x\<bar> / 2 powi quantum x < 2 ^ 53"
proof -
  have "exponentOf x + 1 \<le> quantum x + 53" by (simp add: quantum_def)
  then have "(2::real) powi (exponentOf x + 1) \<le> 2 powi (quantum x + 53)" by (rule powi_mono)
  with exponentOf_bounds(2)[OF assms] have "\<bar>x\<bar> < 2 powi (quantum x + 53)" by linarith
  also have "\<dots> = 2 powi quantum x * 2 ^ 53" by (simp add: power_int_add)
  finally show ?thesis by (simp add: field_simps)
qed

lemma scaled_lower:
  assumes "x \<noteq> 0" "quantum x = exponentOf x - 52"
  shows "2 ^ 52 \<le> \<bar>x\<bar> / 2 powi quantum x"
proof -
  have "exponentOf x = quantum x + 52" using assms(2) by simp
  then have "(2::real) powi exponentOf x = 2 powi quantum x * 2 ^ 52"
    by (simp add: power_int_add)
  with exponentOf_bounds(1)[OF assms(1)] show ?thesis by (simp add: field_simps)
qed

lemma roundMagnitude_upper:
  assumes "x \<noteq> 0"
  shows "roundMagnitude x \<le> 2 powi (quantum x + 53)"
proof -
  have "roundTiesToEven (\<bar>x\<bar> / 2 powi quantum x) \<le> 2 ^ 53"
    using scaled_upper[OF assms] by (intro rte_le) simp
  then have "real_of_int (roundTiesToEven (\<bar>x\<bar> / 2 powi quantum x)) \<le> real_of_int (2 ^ 53)"
    by (simp only: of_int_le_iff)
  then have "real_of_int (roundTiesToEven (\<bar>x\<bar> / 2 powi quantum x)) \<le> 2 ^ 53" by simp
  then have "real_of_int (roundTiesToEven (\<bar>x\<bar> / 2 powi quantum x)) * 2 powi quantum x
               \<le> 2 ^ 53 * 2 powi quantum x"
    by (intro mult_right_mono) simp_all
  then show ?thesis using assms by (simp add: roundMagnitude_def power_int_add mult.commute)
qed

lemma roundMagnitude_lower:
  assumes "x \<noteq> 0" "quantum x = exponentOf x - 52"
  shows "2 powi exponentOf x \<le> roundMagnitude x"
proof -
  have "2 ^ 52 \<le> roundTiesToEven (\<bar>x\<bar> / 2 powi quantum x)"
    using scaled_lower[OF assms] by (intro rte_ge) simp
  then have "real_of_int (2 ^ 52) \<le> real_of_int (roundTiesToEven (\<bar>x\<bar> / 2 powi quantum x))"
    by (simp only: of_int_le_iff)
  then have "2 ^ 52 \<le> real_of_int (roundTiesToEven (\<bar>x\<bar> / 2 powi quantum x))" by simp
  then have "2 ^ 52 * 2 powi quantum x
               \<le> real_of_int (roundTiesToEven (\<bar>x\<bar> / 2 powi quantum x)) * 2 powi quantum x"
    by (intro mult_right_mono) simp_all
  moreover have "(2::real) powi exponentOf x = 2 ^ 52 * 2 powi quantum x"
  proof -
    have "exponentOf x = quantum x + 52" using assms(2) by simp
    then show ?thesis by (simp add: power_int_add)
  qed
  ultimately show ?thesis using assms(1) by (simp add: roundMagnitude_def)
qed

lemma roundMagnitude_mono:
  assumes "\<bar>x\<bar> \<le> \<bar>y\<bar>"
  shows "roundMagnitude x \<le> roundMagnitude y"
proof (cases "x = 0")
  case True
  then have "roundMagnitude x = 0" by (simp add: roundMagnitude_def)
  then show ?thesis by (simp add: roundMagnitude_nonneg)
next
  case False
  then have y: "y \<noteq> 0" using assms by auto
  have q: "quantum x \<le> quantum y"
    using exponentOf_mono[OF False assms] by (simp add: quantum_def)
  show ?thesis
  proof (cases "quantum x = quantum y")
    case True
    have "\<bar>x\<bar> / 2 powi quantum y \<le> \<bar>y\<bar> / 2 powi quantum y"
      using assms by (simp add: divide_right_mono)
    then have "roundTiesToEven (\<bar>x\<bar> / 2 powi quantum y) \<le> roundTiesToEven (\<bar>y\<bar> / 2 powi quantum y)"
      by (rule rte_mono)
    then have "real_of_int (roundTiesToEven (\<bar>x\<bar> / 2 powi quantum y)) * 2 powi quantum y
             \<le> real_of_int (roundTiesToEven (\<bar>y\<bar> / 2 powi quantum y)) * 2 powi quantum y"
      by (intro mult_right_mono) simp_all
    then show ?thesis using False y True by (simp add: roundMagnitude_def)
  next
    case ne: False
    with q have lt: "quantum x < quantum y" by simp
    then have qy: "quantum y = exponentOf y - 52" by (auto simp: quantum_def)
    have "quantum x + 53 \<le> exponentOf y" using lt qy by simp
    then have "(2::real) powi (quantum x + 53) \<le> 2 powi exponentOf y" by (rule powi_mono)
    with roundMagnitude_upper[OF False] roundMagnitude_lower[OF y qy] show ?thesis by linarith
  qed
qed

text \<open>A number \<open>m * 2^k\<close> with at most 53 bits in \<open>m\<close> and \<open>k\<close> at least -1074 is its own rounding.\<close>

lemma roundMagnitude_exact:
  assumes "\<bar>m\<bar> \<le> 2 ^ 53" "- 1074 \<le> k"
  shows "roundMagnitude (real_of_int m * 2 powi k) = \<bar>real_of_int m * 2 powi k\<bar>"
proof (cases "m = 0")
  case True
  then show ?thesis by (simp add: roundMagnitude_def)
next
  case False
  let ?x = "real_of_int m * 2 powi k"
  have nz: "?x \<noteq> 0" using False by simp
  have ax: "\<bar>?x\<bar> = real_of_int \<bar>m\<bar> * 2 powi k" by (simp add: abs_mult)
  have int: "\<exists>j. \<bar>?x\<bar> / 2 powi quantum ?x = real_of_int j"
  proof (cases "quantum ?x \<le> k")
    case True
    then obtain d where d: "k = quantum ?x + int d"
      by (metis zle_iff_zadd)
    have "\<bar>?x\<bar> / 2 powi quantum ?x = real_of_int (\<bar>m\<bar> * 2 ^ d)"
      unfolding ax by (subst d) (simp add: power_int_add)
    then show ?thesis by blast
  next
    case gt: False
    then have qk: "quantum ?x = exponentOf ?x - 52" and kq: "k < exponentOf ?x - 52"
      using assms(2) by (auto simp: quantum_def)
    have "(2::real) powi (k + 53) \<le> 2 powi exponentOf ?x"
      using kq by (intro powi_mono) simp
    with exponentOf_bounds(1)[OF nz] have "2 powi (k + 53) \<le> \<bar>?x\<bar>" by linarith
    then have "2 ^ 53 * 2 powi k \<le> real_of_int \<bar>m\<bar> * 2 powi k"
      unfolding ax by (simp add: power_int_add mult.commute)
    then have "(2::real) ^ 53 \<le> real_of_int \<bar>m\<bar>" by simp
    then have "real_of_int (2 ^ 53) \<le> real_of_int \<bar>m\<bar>" by simp
    then have "2 ^ 53 \<le> \<bar>m\<bar>" by (simp only: of_int_le_iff)
    with assms(1) have m: "\<bar>m\<bar> = 2 ^ 53" by simp
    have ax': "\<bar>?x\<bar> = 2 powi (k + 53)" unfolding ax m by (simp add: power_int_add mult.commute)
    have "exponentOf ?x = k + 53"
    proof (rule exponentOf_unique)
      show "2 powi (k + 53) \<le> \<bar>?x\<bar>" using ax' by simp
      have "(2::real) powi (k + 53) < 2 powi (k + 53 + 1)" by (intro powi_strict_mono) simp
      then show "\<bar>?x\<bar> < 2 powi (k + 53 + 1)" using ax' by simp
    qed
    then have "quantum ?x = k + 1" using qk by simp
    then have "\<bar>?x\<bar> / 2 powi quantum ?x = 2 powi (k + 53) / 2 powi (k + 1)" using ax' by simp
    also have "\<dots> = 2 powi ((k + 53) - (k + 1))" by (rule power_int_diff[symmetric]) simp
    also have "(k + 53) - (k + 1) = 52" by simp
    also have "(2::real) powi 52 = real_of_int (2 ^ 52)" by simp
    finally show ?thesis by blast
  qed
  then obtain j where j: "\<bar>?x\<bar> / 2 powi quantum ?x = real_of_int j" by blast
  then have "real_of_int j * 2 powi quantum ?x = \<bar>?x\<bar>" by (simp add: field_simps)
  then show ?thesis using nz unfolding roundMagnitude_def j by simp
qed


lemma roundMagnitude_form:
  "\<exists>m. roundMagnitude x = real_of_int m * 2 powi quantum x \<and> 0 \<le> m \<and> m \<le> 2 ^ 53"
proof (cases "x = 0")
  case True
  then show ?thesis by (intro exI[of _ 0]) (simp add: roundMagnitude_def)
next
  case False
  let ?m = "roundTiesToEven (\<bar>x\<bar> / 2 powi quantum x)"
  have "?m \<le> 2 ^ 53" using scaled_upper[OF False] by (intro rte_le) simp
  moreover have "0 \<le> ?m" by (intro rte_nonneg) simp
  ultimately show ?thesis using False by (intro exI[of _ ?m]) (simp add: roundMagnitude_def)
qed

lemma roundMagnitude_idem: "roundMagnitude (roundMagnitude x) = roundMagnitude x"
proof -
  obtain m where m: "roundMagnitude x = real_of_int m * 2 powi quantum x"
    and b: "0 \<le> m" "m \<le> 2 ^ 53"
    using roundMagnitude_form by blast
  have q: "- 1074 \<le> quantum x" by (simp add: quantum_def)
  have "\<bar>m\<bar> \<le> 2 ^ 53" using b by simp
  from roundMagnitude_exact[OF this q]
  have "roundMagnitude (roundMagnitude x) = \<bar>roundMagnitude x\<bar>" unfolding m .
  then show ?thesis using roundMagnitude_nonneg[of x] by simp
qed

lemma toDouble_zero [simp]: "toDouble 0 = Finite 0"
  by (simp add: toDouble_def roundMagnitude_def)

lemma toDouble_idem:
  assumes "toDouble x = Finite y"
  shows "toDouble y = Finite y"
proof -
  from assms have small: "\<not> 2 ^ 1024 \<le> roundMagnitude x"
    and y: "y = (if x < 0 then - roundMagnitude x else roundMagnitude x)"
    by (auto simp: toDouble_def Let_def split: if_splits)
  have r: "roundMagnitude y = roundMagnitude x"
    unfolding y by (simp add: roundMagnitude_idem)
  have u: "toDouble y =
      (if 2 ^ 1024 \<le> roundMagnitude x then (if y < 0 then NInf else PInf)
       else Finite (if y < 0 then - roundMagnitude x else roundMagnitude x))"
    unfolding toDouble_def Let_def r ..
  show ?thesis
  proof (cases "y < 0")
    case True
    then have "y = - roundMagnitude x"
      unfolding y using roundMagnitude_nonneg[of x] by (auto split: if_splits)
    then show ?thesis unfolding u using True small by simp
  next
    case False
    then have "y = roundMagnitude x"
      unfolding y using roundMagnitude_nonneg[of x] by (auto split: if_splits)
    then show ?thesis unfolding u using False small by simp
  qed
qed

lemma toDouble_exact:
  assumes "\<bar>m\<bar> \<le> 2 ^ 53" "- 1074 \<le> k" "\<bar>real_of_int m * 2 powi k\<bar> < 2 ^ 1024"
  shows "toDouble (real_of_int m * 2 powi k) = Finite (real_of_int m * 2 powi k)"
  using assms(3) unfolding toDouble_def roundMagnitude_exact[OF assms(1,2)]
  by (auto simp: Let_def)

lemma toDouble_int:
  assumes "\<bar>n\<bar> \<le> 2 ^ 53"
  shows "toDouble (real_of_int n) = Finite (real_of_int n)"
proof -
  have "\<bar>real_of_int n\<bar> \<le> real_of_int (2 ^ 53)" using assms by (simp only: of_int_abs[symmetric] of_int_le_iff)
  then have "\<bar>real_of_int n * 2 powi 0\<bar> < 2 ^ 1024" by simp
  from toDouble_exact[OF assms _ this] show ?thesis by simp
qed

lemma toDouble_half:
  assumes "\<bar>n\<bar> \<le> 2 ^ 53"
  shows "toDouble (real_of_int n / 2) = Finite (real_of_int n / 2)"
proof -
  have "\<bar>real_of_int n\<bar> \<le> real_of_int (2 ^ 53)" using assms by (simp only: of_int_abs[symmetric] of_int_le_iff)
  then have "\<bar>real_of_int n * 2 powi (- 1)\<bar> < 2 ^ 1024" by (simp add: abs_mult)
  from toDouble_exact[OF assms _ this] show ?thesis by simp
qed

lemma toDouble_mono:
  assumes "x \<le> y"
  shows "js_le (toDouble x) (toDouble y)"
proof -
  consider "x < 0" "0 \<le> y" | "0 \<le> x" | "y < 0" using assms by linarith
  then show ?thesis
  proof cases
    case 1
    then show ?thesis
      using roundMagnitude_nonneg[of x] roundMagnitude_nonneg[of y]
      by (simp add: toDouble_def Let_def)
  next
    case 2
    then have "\<bar>x\<bar> \<le> \<bar>y\<bar>" using assms by simp
    from roundMagnitude_mono[OF this] 2 assms show ?thesis
      by (simp add: toDouble_def Let_def)
  next
    case 3
    then have "\<bar>y\<bar> \<le> \<bar>x\<bar>" using assms by simp
    from roundMagnitude_mono[OF this] 3 assms show ?thesis
      by (simp add: toDouble_def Let_def)
  qed
qed

text \<open>A result of magnitude \<open>2^1024\<close> or more overflows.\<close>

lemma toDouble_overflow:
  assumes "2 ^ 1024 \<le> x"
  shows "toDouble x = PInf"
proof -
  have "roundMagnitude (real_of_int 1 * 2 powi 1024) = \<bar>real_of_int 1 * 2 powi 1024\<bar>"
    by (rule roundMagnitude_exact) simp_all
  then have e: "roundMagnitude (2 ^ 1024) = 2 ^ 1024" by simp
  have "\<bar>(2::real) ^ 1024\<bar> \<le> \<bar>x\<bar>" using assms by simp
  from roundMagnitude_mono[OF this] have "2 ^ 1024 \<le> roundMagnitude x" unfolding e .
  moreover have "\<not> x < 0" using assms by (simp add: not_less order_trans[of 0 "2 ^ 1024" x])
  ultimately show ?thesis by (simp add: toDouble_def Let_def)
qed

lemma toDouble_nonneg: "0 \<le> x \<Longrightarrow> js_le (Finite 0) (toDouble x)"
  using toDouble_mono[of 0 x] by simp

lemma isDouble_toDouble [simp]: "isDouble (toDouble x)"
  by (cases "toDouble x") (simp_all add: isDouble_def toDouble_idem)

lemma isDouble_simps [simp]: "isDouble PInf" "isDouble NInf" "isDouble NaN" "isDouble (Finite 0)"
  by (simp_all add: isDouble_def)

lemma js_le_refl: "a \<noteq> NaN \<Longrightarrow> js_le a a"
  by (cases a) simp_all

lemma js_le_trans: "js_le a b \<Longrightarrow> js_le b c \<Longrightarrow> js_le a c"
  by (cases a; cases b; cases c) simp_all

lemma js_le_not_NaN: "js_le a b \<Longrightarrow> a \<noteq> NaN \<and> b \<noteq> NaN"
  by (cases a; cases b) simp_all

lemma js_add_NaN [simp]: "js_add a NaN = NaN" "js_add NaN b = NaN"
  by (cases a) simp_all

lemma js_add_isDouble [simp]: "isDouble (js_add a b)"
  by (cases a; cases b) simp_all

lemma js_add_strict: "js_add a b \<noteq> NaN \<Longrightarrow> a \<noteq> NaN \<and> b \<noteq> NaN"
  by (cases a; cases b) simp_all

lemma js_mul_strict: "js_mul a b \<noteq> NaN \<Longrightarrow> a \<noteq> NaN \<and> b \<noteq> NaN"
  by (cases a; cases b) simp_all

lemma js_round_strict: "js_round a \<noteq> NaN \<Longrightarrow> a \<noteq> NaN"
  by (cases a) simp_all

lemma toDouble_not_NaN [simp]: "toDouble x \<noteq> NaN"
  by (simp add: toDouble_def Let_def)

text \<open>Adding a number that is not negative does not lower a double.\<close>

lemma js_add_increases:
  assumes "isDouble p" "js_le (Finite 0) a" "js_add p a \<noteq> NaN"
  shows "js_le p (js_add p a)"
proof (cases p)
  case (Finite x)
  show ?thesis
  proof (cases a)
    case (Finite y)
    then have "0 \<le> y" using assms(2) by simp
    then have "js_le (toDouble x) (toDouble (x + y))" by (intro toDouble_mono) simp
    moreover have "toDouble x = Finite x" using assms(1) \<open>p = Finite x\<close> by (simp add: isDouble_def)
    ultimately show ?thesis using \<open>p = Finite x\<close> Finite by simp
  qed (use assms Finite in simp_all)
next
  case PInf
  then show ?thesis using assms by (cases a) simp_all
next
  case NInf
  then show ?thesis using assms by (cases a) simp_all
next
  case NaN
  then show ?thesis using assms by simp
qed

lemma js_mul_nonneg:
  assumes "js_le (Finite 0) a" "js_le (Finite 0) b" "js_mul a b \<noteq> NaN"
  shows "js_le (Finite 0) (js_mul a b)"
  using assms by (cases a; cases b) (auto intro: toDouble_nonneg split: if_splits)

lemma js_round_nonneg:
  assumes "js_le (Finite 0) a"
  shows "js_le (Finite 0) (js_round a)"
  using assms by (cases a) simp_all

lemma js_round_int [simp]: "js_round (Finite (real_of_int n)) = Finite (real_of_int n)"
  by simp

lemma js_round_idem [simp]: "js_round (js_round a) = js_round a"
  by (cases a) simp_all

subsection \<open>Search loops\<close>

lemma colHasOpaque_iff:
  "colHasOpaque sc x y y1 \<longleftrightarrow> (\<exists>y' \<in> {y .. y1}. opaque_at sc x y')"
proof (induction sc x y y1 rule: colHasOpaque.induct)
  case (1 sc x y y1)
  show ?case
  proof (cases "y \<le> y1")
    case False
    then show ?thesis by (subst colHasOpaque.simps) simp
  next
    case True
    show ?thesis
    proof (cases "opaque_at sc x y")
      case True
      with \<open>y \<le> y1\<close> show ?thesis by (subst colHasOpaque.simps) auto
    next
      case False
      have split: "{y .. y1} = insert y {y + 1 .. y1}" using \<open>y \<le> y1\<close> by auto
      have "colHasOpaque sc x y y1 = colHasOpaque sc x (y + 1) y1"
        using True False by (subst colHasOpaque.simps) simp
      also have "\<dots> \<longleftrightarrow> (\<exists>y' \<in> {y + 1 .. y1}. opaque_at sc x y')"
        using "1.IH"[OF True False] .
      finally show ?thesis using False by (simp add: split)
    qed
  qed
qed

lemma scanLeft_stop: "\<not> left \<le> x1 \<Longrightarrow> scanLeft sc left x1 y0 y1 = left"
  by (subst scanLeft.simps) simp

lemma scanLeft_hit:
  "left \<le> x1 \<Longrightarrow> colHasOpaque sc left y0 y1 \<Longrightarrow> scanLeft sc left x1 y0 y1 = left"
  by (subst scanLeft.simps) simp

lemma scanLeft_next:
  "left \<le> x1 \<Longrightarrow> \<not> colHasOpaque sc left y0 y1 \<Longrightarrow>
   scanLeft sc left x1 y0 y1 = scanLeft sc (left + 1) x1 y0 y1"
  by (subst scanLeft.simps) simp

lemma scanRight_stop: "\<not> x0 \<le> right \<Longrightarrow> scanRight sc right x0 y0 y1 = right"
  by (subst scanRight.simps) simp

lemma scanRight_hit:
  "x0 \<le> right \<Longrightarrow> colHasOpaque sc right y0 y1 \<Longrightarrow> scanRight sc right x0 y0 y1 = right"
  by (subst scanRight.simps) simp

lemma scanRight_next:
  "x0 \<le> right \<Longrightarrow> \<not> colHasOpaque sc right y0 y1 \<Longrightarrow>
   scanRight sc right x0 y0 y1 = scanRight sc (right - 1) x0 y0 y1"
  by (subst scanRight.simps) simp

lemma scanLeft_props:
  assumes "left \<le> x1 + 1"
  shows "left \<le> scanLeft sc left x1 y0 y1 \<and> scanLeft sc left x1 y0 y1 \<le> x1 + 1
       \<and> (\<forall>x. left \<le> x \<and> x < scanLeft sc left x1 y0 y1 \<longrightarrow> \<not> colHasOpaque sc x y0 y1)
       \<and> (scanLeft sc left x1 y0 y1 \<le> x1 \<longrightarrow> colHasOpaque sc (scanLeft sc left x1 y0 y1) y0 y1)"
  using assms
proof (induction sc left x1 y0 y1 rule: scanLeft.induct)
  case (1 sc left x1 y0 y1)
  show ?case
  proof (cases "left \<le> x1")
    case False
    with "1.prems" show ?thesis by (auto simp: scanLeft_stop)
  next
    case True
    show ?thesis
    proof (cases "colHasOpaque sc left y0 y1")
      case True
      with \<open>left \<le> x1\<close> show ?thesis by (auto simp: scanLeft_hit)
    next
      case False
      note eq = scanLeft_next[OF True False]
      have ih: "left + 1 \<le> scanLeft sc (left + 1) x1 y0 y1 \<and> scanLeft sc (left + 1) x1 y0 y1 \<le> x1 + 1
       \<and> (\<forall>x. left + 1 \<le> x \<and> x < scanLeft sc (left + 1) x1 y0 y1 \<longrightarrow> \<not> colHasOpaque sc x y0 y1)
       \<and> (scanLeft sc (left + 1) x1 y0 y1 \<le> x1 \<longrightarrow> colHasOpaque sc (scanLeft sc (left + 1) x1 y0 y1) y0 y1)"
        using "1.IH"[OF True False] True by simp
      have "\<not> colHasOpaque sc x y0 y1"
        if a: "left \<le> x" "x < scanLeft sc (left + 1) x1 y0 y1" for x
      proof (cases "x = left")
        case True then show ?thesis using False by simp
      next
        case False
        with a have "left + 1 \<le> x" by simp
        with a ih show ?thesis by blast
      qed
      with ih show ?thesis unfolding eq by auto
    qed
  qed
qed

lemma scanRight_props:
  assumes "x0 - 1 \<le> right"
  shows "scanRight sc right x0 y0 y1 \<le> right \<and> x0 - 1 \<le> scanRight sc right x0 y0 y1
       \<and> (\<forall>x. scanRight sc right x0 y0 y1 < x \<and> x \<le> right \<longrightarrow> \<not> colHasOpaque sc x y0 y1)
       \<and> (x0 \<le> scanRight sc right x0 y0 y1 \<longrightarrow> colHasOpaque sc (scanRight sc right x0 y0 y1) y0 y1)"
  using assms
proof (induction sc right x0 y0 y1 rule: scanRight.induct)
  case (1 sc right x0 y0 y1)
  show ?case
  proof (cases "x0 \<le> right")
    case False
    with "1.prems" show ?thesis by (auto simp: scanRight_stop)
  next
    case True
    show ?thesis
    proof (cases "colHasOpaque sc right y0 y1")
      case True
      with \<open>x0 \<le> right\<close> show ?thesis by (auto simp: scanRight_hit)
    next
      case False
      note eq = scanRight_next[OF True False]
      have ih: "scanRight sc (right - 1) x0 y0 y1 \<le> right - 1 \<and> x0 - 1 \<le> scanRight sc (right - 1) x0 y0 y1
       \<and> (\<forall>x. scanRight sc (right - 1) x0 y0 y1 < x \<and> x \<le> right - 1 \<longrightarrow> \<not> colHasOpaque sc x y0 y1)
       \<and> (x0 \<le> scanRight sc (right - 1) x0 y0 y1 \<longrightarrow> colHasOpaque sc (scanRight sc (right - 1) x0 y0 y1) y0 y1)"
        using "1.IH"[OF True False] True by simp
      have "\<not> colHasOpaque sc x y0 y1"
        if a: "scanRight sc (right - 1) x0 y0 y1 < x" "x \<le> right" for x
      proof (cases "x = right")
        case True then show ?thesis using False by simp
      next
        case False
        with a have "x \<le> right - 1" by simp
        with a ih show ?thesis by blast
      qed
      with ih show ?thesis unfolding eq by auto
    qed
  qed
qed

text \<open>What the two scans return, in terms of the set of opaque columns.\<close>

lemma scanLeft_cols:
  fixes C :: "int set"
  assumes C: "C = {x \<in> {x0 .. x1}. colHasOpaque sc x y0 y1}" and le: "x0 \<le> x1 + 1"
  shows "scanLeft sc x0 x1 y0 y1 = (if C = {} then x1 + 1 else Min C)"
proof -
  let ?r = "scanLeft sc x0 x1 y0 y1"
  note p = scanLeft_props[OF le, of sc y0 y1]
  have fin: "finite C" by (rule finite_subset[of _ "{x0 .. x1}"]) (auto simp: C)
  show ?thesis
  proof (cases "C = {}")
    case True
    have "\<not> ?r \<le> x1"
    proof
      assume "?r \<le> x1"
      with p have "?r \<in> C" unfolding C by simp
      with True show False by simp
    qed
    with p True show ?thesis by simp
  next
    case False
    have "?r \<le> x1"
    proof (rule ccontr)
      assume "\<not> ?r \<le> x1"
      with p have r: "?r = x1 + 1" by simp
      from False obtain c where "c \<in> C" by blast
      then have "x0 \<le> c" "c \<le> x1" "colHasOpaque sc c y0 y1" unfolding C by simp_all
      with p r show False by auto
    qed
    with p have rin: "?r \<in> C" unfolding C by simp
    have "?r \<le> c" if "c \<in> C" for c
    proof (rule ccontr)
      assume "\<not> ?r \<le> c"
      moreover from that have "x0 \<le> c" "colHasOpaque sc c y0 y1" unfolding C by simp_all
      ultimately show False using p by auto
    qed
    with rin fin have "Min C = ?r" by (intro Min_eqI) auto
    with False show ?thesis by simp
  qed
qed

lemma scanRight_cols:
  fixes C :: "int set"
  assumes C: "C = {x \<in> {x0 .. x1}. colHasOpaque sc x y0 y1}" and le: "x0 - 1 \<le> x1"
  shows "scanRight sc x1 x0 y0 y1 = (if C = {} then x0 - 1 else Max C)"
proof -
  let ?r = "scanRight sc x1 x0 y0 y1"
  note p = scanRight_props[OF le, of sc y0 y1]
  have fin: "finite C" by (rule finite_subset[of _ "{x0 .. x1}"]) (auto simp: C)
  show ?thesis
  proof (cases "C = {}")
    case True
    have "\<not> x0 \<le> ?r"
    proof
      assume "x0 \<le> ?r"
      with p have "?r \<in> C" unfolding C by simp
      with True show False by simp
    qed
    with p True show ?thesis by simp
  next
    case False
    have "x0 \<le> ?r"
    proof (rule ccontr)
      assume "\<not> x0 \<le> ?r"
      with p have r: "?r = x0 - 1" by simp
      from False obtain c where "c \<in> C" by blast
      then have "x0 \<le> c" "c \<le> x1" "colHasOpaque sc c y0 y1" unfolding C by simp_all
      with p r show False by auto
    qed
    with p have rin: "?r \<in> C" unfolding C by simp
    have "c \<le> ?r" if "c \<in> C" for c
    proof (rule ccontr)
      assume "\<not> c \<le> ?r"
      moreover from that have "c \<le> x1" "colHasOpaque sc c y0 y1" unfolding C by simp_all
      ultimately show False using p by auto
    qed
    with rin fin have "Max C = ?r" by (intro Max_eqI) auto
    with False show ?thesis by simp
  qed
qed

lemma opaqueCols_alt:
  "opaqueCols sc tileW tileH idx =
     {x \<in> {tileX0 tileW idx .. tileX1 tileW idx}.
        colHasOpaque sc x (tileY0 tileH idx) (tileY1 tileH idx)}"
  by (simp add: opaqueCols_def colHasOpaque_iff)

lemma tileHasOpaque_cols:
  "tileHasOpaque sc tileW tileH idx \<longleftrightarrow> opaqueCols sc tileW tileH idx \<noteq> {}"
  by (auto simp: tileHasOpaque_def opaqueCols_def)

lemma uint16_of_int: "0 \<le> v \<Longrightarrow> v < 65536 \<Longrightarrow> uint (of_int v :: 16 word) = v"
  by (simp add: uint_word_of_int)

lemma tileAdvance_eq:
  assumes "tileW < 65535"
  shows "uint (tileAdvance sc tileW tileH idx) =
     (if \<not> tileHasOpaque sc tileW tileH idx then int tileW
      else (Max (opaqueCols sc tileW tileH idx) - Min (opaqueCols sc tileW tileH idx) + 1) + 1)"
proof -
  let ?x0 = "tileX0 tileW idx" and ?x1 = "tileX1 tileW idx"
  let ?y0 = "tileY0 tileH idx" and ?y1 = "tileY1 tileH idx"
  let ?C = "opaqueCols sc tileW tileH idx"
  have le: "?x0 \<le> ?x1 + 1" "?x0 - 1 \<le> ?x1" by (simp_all add: tileX1_def)
  have L: "scanLeft sc ?x0 ?x1 ?y0 ?y1 = (if ?C = {} then ?x1 + 1 else Min ?C)"
    by (rule scanLeft_cols[OF opaqueCols_alt le(1)])
  have R: "scanRight sc ?x1 ?x0 ?y0 ?y1 = (if ?C = {} then ?x0 - 1 else Max ?C)"
    by (rule scanRight_cols[OF opaqueCols_alt le(2)])
  have unf: "tileAdvance sc tileW tileH idx =
      (if scanRight sc ?x1 ?x0 ?y0 ?y1 < scanLeft sc ?x0 ?x1 ?y0 ?y1 then of_nat tileW
       else of_int (scanRight sc ?x1 ?x0 ?y0 ?y1 - scanLeft sc ?x0 ?x1 ?y0 ?y1 + 1 + 1))"
    by (simp add: tileAdvance_def Let_def tileX0_def tileX1_def tileY0_def tileY1_def)
  show ?thesis
  proof (cases "?C = {}")
    case True
    have "uint (of_nat tileW :: 16 word) = int tileW"
      using assms by (simp add: unsigned_of_nat take_bit_nat_eq_self)
    with True L R show ?thesis
      by (simp add: unf tileHasOpaque_cols tileX1_def)
  next
    case False
    have fin: "finite ?C" by (rule finite_subset[of _ "{?x0 .. ?x1}"]) (auto simp: opaqueCols_def)
    have mn: "Min ?C \<in> ?C" and mx: "Max ?C \<in> ?C" using fin False by simp_all
    have mm: "Min ?C \<le> Max ?C" using fin False by simp
    have b1: "?x0 \<le> Min ?C" and b2: "Max ?C \<le> ?x1"
      using mn mx by (simp_all add: opaqueCols_def)
    let ?v = "Max ?C - Min ?C + 1 + 1"
    have rng: "0 \<le> ?v" "?v < 65536" using mm b1 b2 assms by (simp_all add: tileX1_def)
    have "uint (of_int ?v :: 16 word) = ?v"
      by (rule uint16_of_int[OF rng])
    with False L R mm show ?thesis
      by (simp add: unf tileHasOpaque_cols)
  qed
qed

text \<open>
  Claim C3 (advance table derivation). For every opacity map and every tile index
  0..255 (tile width below 65535, so that the 16-bit entry holds it): a tile with no
  opaque pixel gets the advance \<open>tileW\<close>; any other tile gets
  (rightmost opaque column - leftmost opaque column + 1) + 1, a column being opaque
  when some pixel of it within the tile's rows has alpha above 0.
\<close>

theorem buildAdvance_table:
  assumes "idx < 256" and "tileW < 65535"
  shows "uint (buildAdvance sc tileW tileH ! idx) =
     (if \<not> tileHasOpaque sc tileW tileH idx then int tileW
      else (Max (opaqueCols sc tileW tileH idx) - Min (opaqueCols sc tileW tileH idx) + 1) + 1)"
proof -
  have "buildAdvance sc tileW tileH ! idx = tileAdvance sc tileW tileH idx"
    using assms(1) by (simp add: buildAdvance_def del: upt_Suc)
  then show ?thesis using tileAdvance_eq[OF assms(2)] by simp
qed

theorem buildAdvance_table_witness:
  "uint (buildAdvance \<lparr>alpha = [0, 255, 0, 0, 0, 0], width = 3, height = 2\<rparr> 3 2 ! 0) = 2
   \<and> uint (buildAdvance \<lparr>alpha = [0, 255, 0, 0, 0, 0], width = 3, height = 2\<rparr> 3 2 ! 1) = 3"
proof -
  let ?sc = "\<lparr>alpha = [0, 255, 0, 0, 0, 0], width = 3, height = 2\<rparr>"
  have at: "(case alpha_at ?sc i of Some a \<Rightarrow> 0 < a | None \<Rightarrow> False) \<longleftrightarrow> i = 1" for i
  proof -
    consider "i < 0" | "i = 0" | "i = 1" | "i = 2" | "i = 3" | "i = 4" | "i = 5" | "6 \<le> i"
      by atomize_elim auto
    then show ?thesis by cases (simp_all add: alpha_at_def)
  qed
  have op: "opaque_at ?sc x y \<longleftrightarrow> y * 3 + x = 1" for x y
    using at[of "y * 3 + x"] by (simp add: opaque_at_def)
  have t0: "tileX0 3 0 = 0" "tileX1 3 0 = 2" "tileY0 2 0 = 0" "tileY1 2 0 = 1"
    and t1: "tileX0 3 1 = 3" "tileX1 3 1 = 5" "tileY0 2 1 = 0" "tileY1 2 1 = 1"
    by (simp_all add: tileX0_def tileX1_def tileY0_def tileY1_def)
  have cols: "opaqueCols ?sc 3 2 0 = {1}"
    unfolding opaqueCols_def t0 op by (auto, presburger)
  have a: "tileHasOpaque ?sc 3 2 0"
    by (simp add: tileHasOpaque_cols cols)
  have b: "\<not> tileHasOpaque ?sc 3 2 1"
    unfolding tileHasOpaque_def t1 op by auto
  have i0: "(0::nat) < 256" and i1: "(1::nat) < 256" and t: "(3::nat) < 65535" by simp_all
  from buildAdvance_table[OF i0 t, of ?sc 2] buildAdvance_table[OF i1 t, of ?sc 2] a b cols
  show ?thesis by simp
qed

subsection \<open>The vertical center\<close>

lemma rowHasOpaque_iff:
  "rowHasOpaque sc y x x1 \<longleftrightarrow> (\<exists>x' \<in> {x .. x1}. opaque_at sc x' y)"
proof (induction sc y x x1 rule: rowHasOpaque.induct)
  case (1 sc y x x1)
  show ?case
  proof (cases "x \<le> x1")
    case False
    then show ?thesis by (subst rowHasOpaque.simps) simp
  next
    case True
    show ?thesis
    proof (cases "opaque_at sc x y")
      case True
      with \<open>x \<le> x1\<close> show ?thesis by (subst rowHasOpaque.simps) auto
    next
      case False
      have split: "{x .. x1} = insert x {x + 1 .. x1}" using \<open>x \<le> x1\<close> by auto
      have "rowHasOpaque sc y x x1 = rowHasOpaque sc y (x + 1) x1"
        using True False by (subst rowHasOpaque.simps) simp
      also have "\<dots> \<longleftrightarrow> (\<exists>x' \<in> {x + 1 .. x1}. opaque_at sc x' y)"
        using "1.IH"[OF True False] .
      finally show ?thesis using False by (simp add: split)
    qed
  qed
qed

lemma scanTop_rows:
  "scanTop sc y y1 x0 x1 =
     (if {r \<in> {y .. y1}. rowHasOpaque sc r x0 x1} = {} then - 1
      else Min {r \<in> {y .. y1}. rowHasOpaque sc r x0 x1})"
proof (induction sc y y1 x0 x1 rule: scanTop.induct)
  case (1 sc y y1 x0 x1)
  let ?R = "\<lambda>a. {r \<in> {a .. y1}. rowHasOpaque sc r x0 x1}"
  show ?case
  proof (cases "y \<le> y1")
    case False
    then have "?R y = {}" by auto
    with False show ?thesis by (subst scanTop.simps) simp
  next
    case True
    show ?thesis
    proof (cases "rowHasOpaque sc y x0 x1")
      case hit: True
      have fin: "finite (?R y)" by (rule finite_subset[of _ "{y .. y1}"]) auto
      have yin: "y \<in> ?R y" using True hit by simp
      have "Min (?R y) = y"
      proof (rule Min_eqI)
        show "finite (?R y)" by (rule fin)
        show "y \<le> r" if "r \<in> ?R y" for r using that by simp
        show "y \<in> ?R y" by (rule yin)
      qed
      moreover have "?R y \<noteq> {}" using yin by blast
      then have "(if ?R y = {} then - 1 else Min (?R y)) = Min (?R y)" by (rule if_not_P)
      moreover have "scanTop sc y y1 x0 x1 = y"
        using True hit by (subst scanTop.simps) simp
      ultimately show ?thesis by (simp only:)
    next
      case miss: False
      have Req: "?R y = ?R (y + 1)"
      proof (rule set_eqI)
        fix r
        show "r \<in> ?R y \<longleftrightarrow> r \<in> ?R (y + 1)"
        proof (cases "r = y")
          case True
          then show ?thesis using miss by simp
        next
          case False
          then show ?thesis by auto
        qed
      qed
      have step: "scanTop sc y y1 x0 x1 = scanTop sc (y + 1) y1 x0 x1"
        using True miss by (subst scanTop.simps) simp
      show ?thesis unfolding step Req by (rule "1.IH"[OF True miss])
    qed
  qed
qed

lemma scanBottom_rows:
  "scanBottom sc y y0 x0 x1 =
     (if {r \<in> {y0 .. y}. rowHasOpaque sc r x0 x1} = {} then - 1
      else Max {r \<in> {y0 .. y}. rowHasOpaque sc r x0 x1})"
proof (induction sc y y0 x0 x1 rule: scanBottom.induct)
  case (1 sc y y0 x0 x1)
  let ?R = "\<lambda>a. {r \<in> {y0 .. a}. rowHasOpaque sc r x0 x1}"
  show ?case
  proof (cases "y0 \<le> y")
    case False
    then have "?R y = {}" by auto
    with False show ?thesis by (subst scanBottom.simps) simp
  next
    case True
    show ?thesis
    proof (cases "rowHasOpaque sc y x0 x1")
      case hit: True
      have fin: "finite (?R y)" by (rule finite_subset[of _ "{y0 .. y}"]) auto
      have yin: "y \<in> ?R y" using True hit by simp
      have "Max (?R y) = y"
      proof (rule Max_eqI)
        show "finite (?R y)" by (rule fin)
        show "r \<le> y" if "r \<in> ?R y" for r using that by simp
        show "y \<in> ?R y" by (rule yin)
      qed
      moreover have "?R y \<noteq> {}" using yin by blast
      then have "(if ?R y = {} then - 1 else Max (?R y)) = Max (?R y)" by (rule if_not_P)
      moreover have "scanBottom sc y y0 x0 x1 = y"
        using True hit by (subst scanBottom.simps) simp
      ultimately show ?thesis by (simp only:)
    next
      case miss: False
      have Req: "?R y = ?R (y - 1)"
      proof (rule set_eqI)
        fix r
        show "r \<in> ?R y \<longleftrightarrow> r \<in> ?R (y - 1)"
        proof (cases "r = y")
          case True
          then show ?thesis using miss by simp
        next
          case False
          then show ?thesis by auto
        qed
      qed
      have step: "scanBottom sc y y0 x0 x1 = scanBottom sc (y - 1) y0 x0 x1"
        using True miss by (subst scanBottom.simps) simp
      show ?thesis unfolding step Req by (rule "1.IH"[OF True miss])
    qed
  qed
qed

lemma opaqueRows_alt:
  "opaqueRows sc tileW tileH idx =
     {r \<in> {tileY0 tileH idx .. tileY1 tileH idx}.
        rowHasOpaque sc r (tileX0 tileW idx) (tileX1 tileW idx)}"
  by (simp add: opaqueRows_def rowHasOpaque_iff)

lemma tileHasOpaque_rows:
  "tileHasOpaque sc tileW tileH idx \<longleftrightarrow> opaqueRows sc tileW tileH idx \<noteq> {}"
  unfolding tileHasOpaque_def opaqueRows_def by blast

text \<open>
  The local center of a tile is half an integer between 0 and \<open>2 * tileH\<close>, so for
  tiles of a realistic height the sum of the loop is exact: only the final division
  rounds.
\<close>

lemma toDouble_halves:
  assumes "x = real_of_int m / 2" "\<bar>m\<bar> \<le> 2 ^ 53"
  shows "toDouble x = Finite x"
  unfolding assms(1) by (rule toDouble_half[OF assms(2)])

lemma tile_rows_bounds:
  assumes "idx < 256" "tileHasOpaque sc tileW tileH idx"
  shows "tileY0 tileH idx \<le> Min (opaqueRows sc tileW tileH idx)"
    and "Min (opaqueRows sc tileW tileH idx) \<le> Max (opaqueRows sc tileW tileH idx)"
    and "Max (opaqueRows sc tileW tileH idx) < tileY0 tileH idx + int tileH"
    and "0 \<le> tileY0 tileH idx" and "tileY0 tileH idx \<le> 15 * int tileH"
proof -
  let ?R = "opaqueRows sc tileW tileH idx"
  have ne: "?R \<noteq> {}" using assms(2) by (simp add: tileHasOpaque_rows)
  have fin: "finite ?R"
    by (rule finite_subset[of _ "{tileY0 tileH idx .. tileY1 tileH idx}"])
       (auto simp: opaqueRows_def)
  have "Min ?R \<in> ?R" "Max ?R \<in> ?R" using fin ne by simp_all
  then show "tileY0 tileH idx \<le> Min ?R" "Max ?R < tileY0 tileH idx + int tileH"
    by (simp_all add: opaqueRows_def tileY1_def)
  show "Min ?R \<le> Max ?R" using fin ne by simp
  show "0 \<le> tileY0 tileH idx" by (simp add: tileY0_def)
  have "idx div 16 \<le> 15" using assms(1) by simp
  then have "(idx div 16) * tileH \<le> 15 * tileH" by (rule mult_le_mono1)
  then show "tileY0 tileH idx \<le> 15 * int tileH"
    unfolding tileY0_def by (metis of_nat_le_iff of_nat_mult of_nat_numeral)
qed

lemma localCenter_half:
  "localCenter sc tileW tileH idx =
     real_of_int (Min (opaqueRows sc tileW tileH idx) + Max (opaqueRows sc tileW tileH idx)
                  - 2 * tileY0 tileH idx) / 2"
  by (simp add: localCenter_def field_simps)

lemma vmTile_eq:
  assumes idx: "idx < 256" and h: "tileH < 2 ^ 32"
    and s: "s = real_of_int k / 2" and k: "0 \<le> k" "k + 2 * int tileH \<le> 2 ^ 53"
  shows "vmTile sc tileW tileH idx (Finite s, c) =
     (if tileHasOpaque sc tileW tileH idx
      then (Finite (s + localCenter sc tileW tileH idx), c + 1)
      else (Finite s, c))"
proof -
  let ?x0 = "tileX0 tileW idx" and ?x1 = "tileX1 tileW idx"
  let ?y0 = "tileY0 tileH idx" and ?y1 = "tileY1 tileH idx"
  let ?R = "opaqueRows sc tileW tileH idx"
  have T: "scanTop sc ?y0 ?y1 ?x0 ?x1 = (if ?R = {} then - 1 else Min ?R)"
    unfolding opaqueRows_alt by (rule scanTop_rows)
  have B: "scanBottom sc ?y1 ?y0 ?x0 ?x1 = (if ?R = {} then - 1 else Max ?R)"
    unfolding opaqueRows_alt by (rule scanBottom_rows)
  have unf: "vmTile sc tileW tileH idx (Finite s, c) =
      (if scanTop sc ?y0 ?y1 ?x0 ?x1 \<ge> 0 \<and> scanBottom sc ?y1 ?y0 ?x0 ?x1 \<ge> 0
       then (js_add (Finite s)
               (js_sub (js_div (js_add (Finite (real_of_int (scanTop sc ?y0 ?y1 ?x0 ?x1)))
                                       (Finite (real_of_int (scanBottom sc ?y1 ?y0 ?x0 ?x1))))
                               (Finite 2))
                       (Finite (real_of_int ?y0))), c + 1)
       else (Finite s, c))"
    by (simp add: vmTile_def Let_def tileX0_def tileX1_def tileY0_def tileY1_def)
  show ?thesis
  proof (cases "?R = {}")
    case True
    with T B show ?thesis by (simp add: unf tileHasOpaque_rows)
  next
    case False
    then have t: "tileHasOpaque sc tileW tileH idx" by (simp add: tileHasOpaque_rows)
    note b = tile_rows_bounds[OF idx t]
    let ?t = "Min ?R" and ?b = "Max ?R"
    have H: "int tileH < 2 ^ 32" using h by (metis of_nat_less_iff of_nat_numeral of_nat_power)
    have nn: "0 \<le> ?t" "0 \<le> ?b" using b by linarith+
    have sum: "js_add (Finite (real_of_int ?t)) (Finite (real_of_int ?b))
                = Finite (real_of_int (?t + ?b))"
    proof -
      have "\<bar>?t + ?b\<bar> \<le> 2 ^ 53" using b H by simp
      from toDouble_int[OF this] show ?thesis by simp
    qed
    have half: "js_div (Finite (real_of_int (?t + ?b))) (Finite 2)
                = Finite (real_of_int (?t + ?b) / 2)"
    proof -
      have "\<bar>?t + ?b\<bar> \<le> 2 ^ 53" using b H by simp
      from toDouble_half[OF this] show ?thesis by simp
    qed
    have loc: "js_sub (Finite (real_of_int (?t + ?b) / 2)) (Finite (real_of_int ?y0))
                = Finite (localCenter sc tileW tileH idx)"
    proof -
      have "\<bar>?t + ?b - 2 * ?y0\<bar> \<le> 2 ^ 53" using b H by simp
      from toDouble_halves[OF localCenter_half this]
      show ?thesis by (simp add: js_sub_def localCenter_def)
    qed
    have acc: "js_add (Finite s) (Finite (localCenter sc tileW tileH idx))
                = Finite (s + localCenter sc tileW tileH idx)"
    proof -
      have e: "s + localCenter sc tileW tileH idx = real_of_int (k + (?t + ?b - 2 * ?y0)) / 2"
        unfolding s localCenter_half by (simp add: field_simps)
      have "\<bar>k + (?t + ?b - 2 * ?y0)\<bar> \<le> 2 ^ 53" using b k by simp
      from toDouble_halves[OF e this] show ?thesis by simp
    qed
    from False T B have T': "scanTop sc ?y0 ?y1 ?x0 ?x1 = ?t"
      and B': "scanBottom sc ?y1 ?y0 ?x0 ?x1 = ?b" by simp_all
    show ?thesis unfolding unf T' B' sum half loc acc using nn t by simp
  qed
qed

lemma localCenter_range:
  assumes "idx < 256" "tileHasOpaque sc tileW tileH idx"
  shows "\<exists>j. localCenter sc tileW tileH idx = real_of_int j / 2 \<and> 0 \<le> j \<and> j \<le> 2 * int tileH"
proof -
  note b = tile_rows_bounds[OF assms]
  let ?j = "Min (opaqueRows sc tileW tileH idx) + Max (opaqueRows sc tileW tileH idx)
            - 2 * tileY0 tileH idx"
  have "0 \<le> ?j" "?j \<le> 2 * int tileH" using b by linarith+
  with localCenter_half[of sc tileW tileH idx] show ?thesis by blast
qed

lemma fold_vmTile:
  assumes "\<forall>idx \<in> set xs. idx < 256" and h: "tileH < 2 ^ 32"
    and "s = real_of_int k / 2" "0 \<le> k" "k + 2 * int tileH * int (length xs) \<le> 2 ^ 53"
  shows "fold (vmTile sc tileW tileH) xs (Finite s, c) =
     (Finite (s + (\<Sum>idx \<leftarrow> filter (tileHasOpaque sc tileW tileH) xs. localCenter sc tileW tileH idx)),
      c + length (filter (tileHasOpaque sc tileW tileH) xs))"
  using assms(1,3,4,5)
proof (induction xs arbitrary: s k c)
  case Nil
  then show ?case by simp
next
  case (Cons idx xs)
  have idx: "idx < 256" and rest: "\<forall>i \<in> set xs. i < 256" using Cons.prems(1) by simp_all
  have len: "k + 2 * int tileH + 2 * int tileH * int (length xs) \<le> 2 ^ 53"
    using Cons.prems(4) by (simp add: algebra_simps)
  have nn: "0 \<le> 2 * int tileH * int (length xs)" by simp
  have k1: "k + 2 * int tileH \<le> 2 ^ 53" using len nn by linarith
  note step = vmTile_eq[OF idx h Cons.prems(2) Cons.prems(3) k1, of sc tileW c]
  show ?case
  proof (cases "tileHasOpaque sc tileW tileH idx")
    case False
    have "k + 2 * int tileH * int (length xs) \<le> 2 ^ 53" using len by simp
    from Cons.IH[OF rest Cons.prems(2) Cons.prems(3) this, of c] False step
    show ?thesis by simp
  next
    case True
    from localCenter_range[OF idx True] obtain j
      where j: "localCenter sc tileW tileH idx = real_of_int j / 2" "0 \<le> j" "j \<le> 2 * int tileH"
      by blast
    have s': "s + localCenter sc tileW tileH idx = real_of_int (k + j) / 2"
      unfolding Cons.prems(2) j(1) by (simp add: field_simps)
    have k': "0 \<le> k + j" using Cons.prems(3) j(2) by simp
    have l': "(k + j) + 2 * int tileH * int (length xs) \<le> 2 ^ 53" using len j(3) by linarith
    from Cons.IH[OF rest s' k' l', of "c + 1"] True step
    show ?thesis by (simp add: add.assoc)
  qed
qed

lemma fold_vmTile_all:
  assumes "tileH < 2 ^ 32"
  shows "fold (vmTile sc tileW tileH) [0..<256] (Finite 0, 0) =
     (Finite (\<Sum>idx \<leftarrow> nonEmptyTiles sc tileW tileH. localCenter sc tileW tileH idx),
      length (nonEmptyTiles sc tileW tileH))"
proof -
  have H: "int tileH < 2 ^ 32"
    using assms by (metis of_nat_less_iff of_nat_numeral of_nat_power)
  have a: "\<forall>idx \<in> set [0..<256]. idx < 256" by simp
  have s: "(0::real) = real_of_int 0 / 2" by simp
  have l: "0 + 2 * int tileH * int (length [0..<256]) \<le> 2 ^ 53" using H by simp
  from fold_vmTile[OF a assms s _ l, of sc tileW 0] show ?thesis
    unfolding nonEmptyTiles_def by simp
qed

text \<open>The center that \<open>_buildVerticalMetrics\<close> computes is a double.\<close>

lemma js_div_isDouble [simp]: "isDouble (js_div a b)"
  by (cases a; cases b) simp_all

lemma buildVerticalMetrics_isDouble: "isDouble (centerRow (buildVerticalMetrics sc tileW tileH))"
  by (simp add: buildVerticalMetrics_def split: prod.split)

text \<open>
  Claim C4 (vertical-center derivation). For every opacity map, and tiles less than
  \<open>2^32\<close> pixels high, the atlas-wide center is the double nearest to the arithmetic
  mean, over exactly the tiles (of the 256) that have an opaque pixel, of (topmost
  opaque row + bottommost opaque row) / 2 - the tile's top row; with no such tile it is
  \<open>tileH / 2\<close>. The mean is the exact one: the sum of the loop does not round, the
  division rounds once.
\<close>

theorem buildVerticalMetrics_center:
  assumes "tileH < 2 ^ 32"
  shows "centerRow (buildVerticalMetrics sc tileW tileH) = toDouble (meanCenter sc tileW tileH)"
proof (cases "nonEmptyTiles sc tileW tileH = []")
  case True
  then show ?thesis
    unfolding buildVerticalMetrics_def fold_vmTile_all[OF assms] meanCenter_def by simp
next
  case False
  then have "length (nonEmptyTiles sc tileW tileH) \<noteq> 0" by simp
  with False show ?thesis
    unfolding buildVerticalMetrics_def fold_vmTile_all[OF assms] meanCenter_def by simp
qed

lemma threeTiles_alpha:
  "(case alpha_at threeTiles i of Some a \<Rightarrow> 0 < a | None \<Rightarrow> False)
     \<longleftrightarrow> i = 0 \<or> i = 2 \<or> i = 3 \<or> i = 19"
proof -
  consider "i < 0" | "i = 0" | "i = 1" | "i = 2" | "i = 3" | "i = 4" | "i = 5" | "i = 6" | "i = 7" | "i = 8" | "i = 9" | "i = 10" | "i = 11" | "i = 12" | "i = 13" | "i = 14" | "i = 15" | "i = 16" | "i = 17" | "i = 18" | "i = 19" | "i = 20" | "i = 21" | "i = 22" | "i = 23" | "i = 24" | "i = 25" | "i = 26" | "i = 27" | "i = 28" | "i = 29" | "i = 30" | "i = 31" | "32 \<le> i"
    by atomize_elim presburger
  then show ?thesis by cases (simp_all add: alpha_at_def threeTiles_def)
qed

lemma threeTiles_opaque:
  "opaque_at threeTiles x y \<longleftrightarrow>
     y * 16 + x = 0 \<or> y * 16 + x = 2 \<or> y * 16 + x = 3 \<or> y * 16 + x = 19"
  using threeTiles_alpha[of "y * 16 + x"] by (simp add: opaque_at_def threeTiles_def)

lemma threeTiles_rows:
  "opaqueRows threeTiles (Suc 0) 2 0 = {0}" "opaqueRows threeTiles (Suc 0) 2 2 = {0}"
  "opaqueRows threeTiles (Suc 0) 2 3 = {0, 1}"
  unfolding opaqueRows_def threeTiles_opaque tileX0_def tileX1_def tileY0_def tileY1_def
  by (auto; presburger)+

lemma threeTiles_nonEmpty:
  "tileHasOpaque threeTiles (Suc 0) 2 idx \<longleftrightarrow> idx = 0 \<or> idx = 2 \<or> idx = 3"
proof
  assume "tileHasOpaque threeTiles (Suc 0) 2 idx"
  then obtain x y where "x \<in> {tileX0 (Suc 0) idx .. tileX1 (Suc 0) idx}"
    and "y \<in> {tileY0 2 idx .. tileY1 2 idx}" and "opaque_at threeTiles x y"
    unfolding tileHasOpaque_def by blast
  then have x: "x = int (idx mod 16)" and y: "int (idx div 16) * 2 \<le> y"
    and e: "y * 16 + x = 0 \<or> y * 16 + x = 2 \<or> y * 16 + x = 3 \<or> y * 16 + x = 19"
    by (simp_all add: tileX0_def tileX1_def tileY0_def threeTiles_opaque)
  have x16: "0 \<le> x" "x < 16" using x by simp_all
  have "0 \<le> y" using y by linarith
  with e x16 have "y < 2" by presburger
  with y have "idx div 16 = 0" by linarith
  then have "int idx = x" using x by simp
  moreover from e x16 \<open>0 \<le> y\<close> have "x = 0 \<or> x = 2 \<or> x = 3" by presburger
  ultimately show "idx = 0 \<or> idx = 2 \<or> idx = 3" by linarith
next
  assume "idx = 0 \<or> idx = 2 \<or> idx = 3"
  then show "tileHasOpaque threeTiles (Suc 0) 2 idx"
    by (auto simp: tileHasOpaque_rows threeTiles_rows)
qed

lemma threeTiles_list: "nonEmptyTiles threeTiles (Suc 0) 2 = [0, 2, 3]"
proof -
  have "nonEmptyTiles threeTiles (Suc 0) 2
          = filter (\<lambda>idx. idx = 0 \<or> idx = 2 \<or> idx = 3) [0..<256]"
    unfolding nonEmptyTiles_def by (rule filter_cong) (simp_all add: threeTiles_nonEmpty)
  also have "[0..<256] = 0 # 1 # 2 # 3 # [4..<256]"
    by (simp add: upt_conv_Cons del: upt_Suc)
  also have "filter (\<lambda>idx. idx = 0 \<or> idx = 2 \<or> idx = 3) (0 # 1 # 2 # 3 # [4..<256]) = [0, 2, 3]"
    by (simp add: filter_empty_conv del: upt_Suc)
  finally show ?thesis .
qed

lemma sixth: "toDouble (1 / 6) = Finite (6004799503160661 / 36028797018963968)"
  by (simp add: toDouble_def roundMagnitude_def quantum_def exponentOf_def roundTiesToEven_def
      Let_def compute_bitlen)

theorem buildVerticalMetrics_center_witness:
  "centerRow (buildVerticalMetrics threeTiles (Suc 0) 2)
     = Finite (6004799503160661 / 36028797018963968)"
proof -
  have lc: "localCenter threeTiles (Suc 0) 2 0 = 0" "localCenter threeTiles (Suc 0) 2 2 = 0"
    "localCenter threeTiles (Suc 0) 2 3 = 1 / 2"
    by (simp_all add: localCenter_def threeTiles_rows tileY0_def)
  have "meanCenter threeTiles (Suc 0) 2 = 1 / 6"
    by (simp add: meanCenter_def threeTiles_list lc)
  with buildVerticalMetrics_center[of 2 threeTiles "Suc 0"] show ?thesis
    by (simp add: sixth)
qed

subsection \<open>Left-margin normalization\<close>

lemma idx16:
  fixes x y x' y' :: nat
  assumes "x < 16" "x' < 16"
  shows "(y * 16 + x = y' * 16 + x') \<longleftrightarrow> (y = y' \<and> x = x')"
proof
  assume e: "y * 16 + x = y' * 16 + x'"
  have "(y * 16 + x) div 16 = y" "(y' * 16 + x') div 16 = y'"
       "(y * 16 + x) mod 16 = x" "(y' * 16 + x') mod 16 = x'"
    using assms by simp_all
  with e show "y = y' \<and> x = x'" by metis
qed simp

lemma idx16_lt: "x < 16 \<Longrightarrow> y < 16 \<Longrightarrow> y * 16 + x < 256" for x y :: nat
  by simp

lemma shiftPixel_length [simp]: "length (shiftPixel src shift y x dst) = length dst"
  by (simp add: shiftPixel_def Let_def)

lemma fold_shiftPixel_length [simp]:
  "length (fold (shiftPixel src shift y) xs dst) = length dst"
  by (induction xs arbitrary: dst) simp_all

lemma shiftRow_nth:
  assumes "0 \<le> shift" "n \<le> 16" "length dst = 256" "y < 16" "y' < 16" "nx < 16"
  shows "fold (shiftPixel src shift y) [0..<n] dst ! (y' * 16 + nx) =
         (if y' = y \<and> int nx + shift < int n then imagePixel src (y * 16 + nat (int nx + shift))
          else dst ! (y' * 16 + nx))"
  using assms(2)
proof (induction n)
  case 0
  then show ?case using assms(1) by simp
next
  case (Suc n)
  then have n: "n < 16" by simp
  let ?d = "fold (shiftPixel src shift y) [0..<n] dst"
  have len: "length ?d = 256" using assms(3) by simp
  have ih: "?d ! (y' * 16 + nx) =
         (if y' = y \<and> int nx + shift < int n then imagePixel src (y * 16 + nat (int nx + shift))
          else dst ! (y' * 16 + nx))"
    using Suc by simp
  have step: "fold (shiftPixel src shift y) [0..<Suc n] dst = shiftPixel src shift y n ?d"
    by simp
  show ?case
  proof (cases "int n - shift < 0")
    case True
    then have "shiftPixel src shift y n ?d = ?d" by (simp add: shiftPixel_def Let_def)
    moreover have "\<not> (int nx + shift < int (Suc n)) \<or> int nx + shift < int n"
      using True by linarith
    ultimately show ?thesis unfolding step using ih True by auto
  next
    case False
    define m where "m = nat (int n - shift)"
    have m: "int m = int n - shift" "m < 16" using False n assms(1) by (simp_all add: m_def)
    have di: "nat (int (y * 16) + (int n - shift)) = y * 16 + m" using m(1) by linarith
    have sp: "shiftPixel src shift y n ?d = ?d[y * 16 + m := imagePixel src (y * 16 + n)]"
      using False unfolding shiftPixel_def Let_def di by simp
    have in_range: "y * 16 + m < length ?d" using len m assms(4) by simp
    show ?thesis
    proof (cases "y' = y \<and> nx = m")
      case True
      then have "(shiftPixel src shift y n ?d) ! (y' * 16 + nx) = imagePixel src (y * 16 + n)"
        using sp in_range by simp
      moreover have "int nx + shift = int n" using True m by simp
      ultimately show ?thesis unfolding step using True by simp
    next
      case False
      then have ne: "y' * 16 + nx \<noteq> y * 16 + m"
        using idx16[OF assms(6) m(2), of y' y] by blast
      have "(shiftPixel src shift y n ?d) ! (y' * 16 + nx) = ?d ! (y' * 16 + nx)"
        using sp ne by simp
      moreover have "y' = y \<Longrightarrow> int nx + shift \<noteq> int n" using False m by auto
      then have "(y' = y \<and> int nx + shift < int (Suc n)) \<longleftrightarrow> (y' = y \<and> int nx + shift < int n)"
        by auto
      ultimately show ?thesis unfolding step using ih by simp
    qed
  qed
qed

lemma fold_shiftRows_length [simp]:
  "length (fold (\<lambda>y. fold (shiftPixel src shift y) [0..<16]) ys dst) = length dst"
  by (induction ys arbitrary: dst) simp_all

lemma shiftRows_nth:
  assumes "0 \<le> shift" "m \<le> 16" "length dst = 256" "y' < 16" "nx < 16"
  shows "fold (\<lambda>y. fold (shiftPixel src shift y) [0..<16]) [0..<m] dst ! (y' * 16 + nx) =
         (if y' < m \<and> int nx + shift < 16 then imagePixel src (y' * 16 + nat (int nx + shift))
          else dst ! (y' * 16 + nx))"
  using assms(2)
proof (induction m)
  case 0
  then show ?case by simp
next
  case (Suc m)
  then have m: "m < 16" by simp
  let ?d = "fold (\<lambda>y. fold (shiftPixel src shift y) [0..<16]) [0..<m] dst"
  have len: "length ?d = 256" using assms(3) by simp
  have ih: "?d ! (y' * 16 + nx) =
         (if y' < m \<and> int nx + shift < 16 then imagePixel src (y' * 16 + nat (int nx + shift))
          else dst ! (y' * 16 + nx))"
    using Suc by simp
  have step: "fold (\<lambda>y. fold (shiftPixel src shift y) [0..<16]) [0..<Suc m] dst =
              fold (shiftPixel src shift m) [0..<16] ?d"
    by simp
  have row: "fold (shiftPixel src shift m) [0..<16] ?d ! (y' * 16 + nx) =
         (if y' = m \<and> int nx + shift < int 16 then imagePixel src (m * 16 + nat (int nx + shift))
          else ?d ! (y' * 16 + nx))"
    by (rule shiftRow_nth[OF assms(1) _ len m assms(4) assms(5)]) simp
  show ?case
  proof (cases "y' = m")
    case True
    then show ?thesis unfolding step row using ih by simp
  next
    case False
    then have "y' < Suc m \<longleftrightarrow> y' < m" by auto
    then show ?thesis unfolding step row using ih False by simp
  qed
qed

lemma shiftTile_length [simp]: "length (shiftTile src shift) = 256"
  by (simp add: shiftTile_def createImageData_def)

lemma shiftTile_nth:
  assumes "0 \<le> shift" "y < 16" "nx < 16"
  shows "shiftTile src shift ! (y * 16 + nx) =
         (if int nx + shift < 16 then imagePixel src (y * 16 + nat (int nx + shift))
          else transparent)"
proof -
  have len: "length (createImageData 16 16) = 256" by (simp add: createImageData_def)
  have blank: "createImageData 16 16 ! (y * 16 + nx) = transparent"
    using assms(2,3) by (simp add: createImageData_def)
  show ?thesis
    unfolding shiftTile_def
    using shiftRows_nth[OF assms(1) order_refl len assms(2) assms(3), of src] assms(2) blank
    by simp
qed

text \<open>The search for the leftmost opaque column.\<close>


lemma leftOpaqueY_iff:
  "leftOpaqueY data x y \<longleftrightarrow> (\<exists>y'. y \<le> y' \<and> y' < 16 \<and> pixelOpaque data x y')"
proof (induction data x y rule: leftOpaqueY.induct)
  case (1 data x y)
  show ?case
  proof (cases "y < 16")
    case False
    then show ?thesis by (subst leftOpaqueY.simps) auto
  next
    case True
    show ?thesis
    proof (cases "pixelOpaque data x y")
      case hit: True
      then have "leftOpaqueY data x y"
        using True by (subst leftOpaqueY.simps) (simp add: pixelOpaque_def)
      moreover have "\<exists>y'. y \<le> y' \<and> y' < 16 \<and> pixelOpaque data x y'"
        using True hit by blast
      ultimately show ?thesis by simp
    next
      case miss: False
      have step: "leftOpaqueY data x y = leftOpaqueY data x (y + 1)"
        using True miss by (subst leftOpaqueY.simps) (simp add: pixelOpaque_def)
      have ih: "leftOpaqueY data x (y + 1) \<longleftrightarrow>
                (\<exists>y'. y + 1 \<le> y' \<and> y' < 16 \<and> pixelOpaque data x y')"
        using "1.IH"[OF True] miss by (simp add: pixelOpaque_def)
      have "(\<exists>y'. y \<le> y' \<and> y' < 16 \<and> pixelOpaque data x y') \<longleftrightarrow>
            (\<exists>y'. y + 1 \<le> y' \<and> y' < 16 \<and> pixelOpaque data x y')"
      proof
        assume "\<exists>y'. y \<le> y' \<and> y' < 16 \<and> pixelOpaque data x y'"
        then obtain y' where y': "y \<le> y'" "y' < 16" "pixelOpaque data x y'" by blast
        with miss have "y' \<noteq> y" by auto
        with y' have "y + 1 \<le> y'" by simp
        with y' show "\<exists>y'. y + 1 \<le> y' \<and> y' < 16 \<and> pixelOpaque data x y'" by blast
      next
        assume "\<exists>y'. y + 1 \<le> y' \<and> y' < 16 \<and> pixelOpaque data x y'"
        then obtain y' where "y + 1 \<le> y'" "y' < 16" "pixelOpaque data x y'" by blast
        then have "y \<le> y' \<and> y' < 16 \<and> pixelOpaque data x y'" by simp
        then show "\<exists>y'. y \<le> y' \<and> y' < 16 \<and> pixelOpaque data x y'" ..
      qed
      with step ih show ?thesis by simp
    qed
  qed
qed


lemma leftOpaqueY_col: "leftOpaqueY data x 0 \<longleftrightarrow> colOpaque data x"
  by (simp add: leftOpaqueY_iff colOpaque_def)

lemma leftOpaqueFrom_props:
  "(leftOpaqueFrom data x = - 1 \<and> (\<forall>x'. x \<le> x' \<and> x' < 16 \<longrightarrow> \<not> colOpaque data x'))
   \<or> (\<exists>r. leftOpaqueFrom data x = int r \<and> x \<le> r \<and> r < 16 \<and> colOpaque data r
          \<and> (\<forall>x'. x \<le> x' \<and> x' < r \<longrightarrow> \<not> colOpaque data x'))"
proof (induction data x rule: leftOpaqueFrom.induct)
  case (1 data x)
  show ?case
  proof (cases "x < 16")
    case False
    then have "leftOpaqueFrom data x = - 1" by (subst leftOpaqueFrom.simps) simp
    with False show ?thesis by auto
  next
    case True
    show ?thesis
    proof (cases "colOpaque data x")
      case hit: True
      then have "leftOpaqueFrom data x = int x"
        using True by (subst leftOpaqueFrom.simps) (simp add: leftOpaqueY_col)
      with True hit show ?thesis by auto
    next
      case miss: False
      have step: "leftOpaqueFrom data x = leftOpaqueFrom data (x + 1)"
        using True miss by (subst leftOpaqueFrom.simps) (simp add: leftOpaqueY_col)
      have ih: "(leftOpaqueFrom data (x + 1) = - 1 \<and>
                 (\<forall>x'. x + 1 \<le> x' \<and> x' < 16 \<longrightarrow> \<not> colOpaque data x'))
          \<or> (\<exists>r. leftOpaqueFrom data (x + 1) = int r \<and> x + 1 \<le> r \<and> r < 16 \<and> colOpaque data r
               \<and> (\<forall>x'. x + 1 \<le> x' \<and> x' < r \<longrightarrow> \<not> colOpaque data x'))"
        using "1.IH"[OF True] miss by (simp add: leftOpaqueY_col)
      have ext: "\<not> colOpaque data x'" if "x \<le> x'" "x + 1 \<le> x' \<Longrightarrow> \<not> colOpaque data x'" for x'
        using that miss by (cases "x' = x") auto
      from ih show ?thesis
      proof
        assume a: "leftOpaqueFrom data (x + 1) = - 1 \<and>
                 (\<forall>x'. x + 1 \<le> x' \<and> x' < 16 \<longrightarrow> \<not> colOpaque data x')"
        then have "\<forall>x'. x \<le> x' \<and> x' < 16 \<longrightarrow> \<not> colOpaque data x'"
          using ext by blast
        with a step show ?thesis by simp
      next
        assume "\<exists>r. leftOpaqueFrom data (x + 1) = int r \<and> x + 1 \<le> r \<and> r < 16 \<and> colOpaque data r
               \<and> (\<forall>x'. x + 1 \<le> x' \<and> x' < r \<longrightarrow> \<not> colOpaque data x')"
        then obtain r where r: "leftOpaqueFrom data (x + 1) = int r" "x + 1 \<le> r" "r < 16"
          "colOpaque data r" "\<forall>x'. x + 1 \<le> x' \<and> x' < r \<longrightarrow> \<not> colOpaque data x'" by blast
        have "\<forall>x'. x \<le> x' \<and> x' < r \<longrightarrow> \<not> colOpaque data x'"
          using ext r(5) by blast
        moreover have "x \<le> r" using r(2) by simp
        ultimately have "leftOpaqueFrom data x = int r \<and> x \<le> r \<and> r < 16 \<and> colOpaque data r
               \<and> (\<forall>x'. x \<le> x' \<and> x' < r \<longrightarrow> \<not> colOpaque data x')"
          using r step by simp
        then show ?thesis by blast
      qed
    qed
  qed
qed

lemma leftOpaqueX_cases:
  "(leftOpaqueX data = - 1 \<and> (\<forall>x' < 16. \<not> colOpaque data x'))
   \<or> (\<exists>r < 16. leftOpaqueX data = int r \<and> colOpaque data r
          \<and> (\<forall>x' < r. \<not> colOpaque data x'))"
  using leftOpaqueFrom_props[of data 0] unfolding leftOpaqueX_def by auto

lemma leftOpaqueX_le1:
  assumes "colOpaque data x" "x \<le> 1"
  shows "leftOpaqueX data \<le> 1"
proof -
  from leftOpaqueX_cases[of data] show ?thesis
  proof
    assume "leftOpaqueX data = - 1 \<and> (\<forall>x' < 16. \<not> colOpaque data x')"
    then show ?thesis by simp
  next
    assume "\<exists>r < 16. leftOpaqueX data = int r \<and> colOpaque data r
          \<and> (\<forall>x' < r. \<not> colOpaque data x')"
    then obtain r where r: "leftOpaqueX data = int r" "\<forall>x' < r. \<not> colOpaque data x'" by blast
    have "\<not> x < r" using r(2) assms(1) by blast
    with assms(2) r(1) show ?thesis by simp
  qed
qed

lemma leftOpaqueX_gt1:
  assumes "1 < leftOpaqueX data"
  obtains r where "leftOpaqueX data = int r" "1 < r" "r < 16" "colOpaque data r"
proof -
  from leftOpaqueX_cases[of data] assms
  obtain r where "r < 16" "leftOpaqueX data = int r" "colOpaque data r" by auto
  with assms that show thesis by auto
qed

lemma tilePixels_length [simp]: "length (tilePixels cv code) = 256"
  by (simp add: tilePixels_def getImageData_def)

lemma tilePixels_at:
  assumes "i < 256"
  shows "tilePixels cv code ! i =
         canvasPixel cv ((code mod 16) * 16 + i mod 16) ((code div 16) * 16 + i div 16)"
  using assms by (simp add: tilePixels_def getImageData_def del: upt_Suc)

lemma tilePixels_xy:
  assumes "x < 16" "y < 16"
  shows "imagePixel (tilePixels cv code) (y * 16 + x) =
         canvasPixel cv ((code mod 16) * 16 + x) ((code div 16) * 16 + y)"
proof -
  have i: "y * 16 + x < 256" using assms by simp
  have "(y * 16 + x) mod 16 = x" "(y * 16 + x) div 16 = y" using assms by simp_all
  then show ?thesis using tilePixels_at[OF i, of cv code] i by (simp add: imagePixel_def)
qed

lemma in_tile_iff:
  fixes a c c' :: nat
  assumes "a < 16"
  shows "(c' * 16 \<le> c * 16 + a \<and> c * 16 + a < c' * 16 + 16) \<longleftrightarrow> c = c'"
  using assms by arith

lemma canvasPixel_put_same:
  assumes "a < 16" "b < 16"
  shows "canvasPixel (putImageData cv img (cx * 16) (cy * 16) 16 16) (cx * 16 + a) (cy * 16 + b) =
         (if cx * 16 + a < cv_width cv \<and> cy * 16 + b < cv_height cv
          then imagePixel img (b * 16 + a) else transparent)"
  using assms by (simp add: canvasPixel_def putImageData_def)

lemma canvasPixel_put_other:
  assumes "a < 16" "b < 16" "cx \<noteq> cx' \<or> cy \<noteq> cy'"
  shows "canvasPixel (putImageData cv img (cx' * 16) (cy' * 16) 16 16) (cx * 16 + a) (cy * 16 + b) =
         canvasPixel cv (cx * 16 + a) (cy * 16 + b)"
proof -
  have "\<not> (cx' * 16 \<le> cx * 16 + a \<and> cx * 16 + a < cx' * 16 + 16
          \<and> cy' * 16 \<le> cy * 16 + b \<and> cy * 16 + b < cy' * 16 + 16)"
    using in_tile_iff[OF assms(1), of cx' cx] in_tile_iff[OF assms(2), of cy' cy] assms(3)
    by blast
  then show ?thesis by (auto simp: canvasPixel_def putImageData_def)
qed

lemma normalizeTile_unfold:
  "normalizeTile code cv =
     (if leftOpaqueX (tilePixels cv code) \<le> 1 then cv
      else putImageData cv (shiftTile (tilePixels cv code) (leftOpaqueX (tilePixels cv code) - 1))
             ((code mod 16) * 16) ((code div 16) * 16) 16 16)"
  by (simp add: normalizeTile_def tilePixels_def Let_def)

text \<open>A tile already within the margin is left alone.\<close>

lemma normalizeTile_id:
  "leftOpaqueX (tilePixels cv code) \<le> 1 \<Longrightarrow> normalizeTile code cv = cv"
  by (simp add: normalizeTile_unfold)

text \<open>Normalizing one tile does not touch another tile.\<close>

lemma normalizeTile_other:
  assumes "code \<noteq> code'"
  shows "tilePixels (normalizeTile code' cv) code = tilePixels cv code"
proof (cases "leftOpaqueX (tilePixels cv code') \<le> 1")
  case True
  then show ?thesis by (simp add: normalizeTile_id)
next
  case False
  have ne: "code mod 16 \<noteq> code' mod 16 \<or> code div 16 \<noteq> code' div 16"
    using assms by (metis div_mult_mod_eq)
  let ?cv' = "putImageData cv (shiftTile (tilePixels cv code') (leftOpaqueX (tilePixels cv code') - 1))
             ((code' mod 16) * 16) ((code' div 16) * 16) 16 16"
  have "tilePixels ?cv' code = tilePixels cv code"
  proof (rule nth_equalityI)
    show "length (tilePixels ?cv' code) = length (tilePixels cv code)" by simp
  next
    fix i assume "i < length (tilePixels ?cv' code)"
    then have i: "i < 256" by simp
    then have m: "i mod 16 < 16" "i div 16 < 16" by simp_all
    show "tilePixels ?cv' code ! i = tilePixels cv code ! i"
      unfolding tilePixels_at[OF i]
      by (rule canvasPixel_put_other[OF m ne])
  qed
  with False show ?thesis by (simp add: normalizeTile_unfold)
qed

text \<open>After its round, a tile's leftmost opaque column is 0 or 1 (or it has none: -1).\<close>

lemma normalizeTile_margin:
  "leftOpaqueX (tilePixels (normalizeTile code cv) code) \<le> 1"
proof (cases "leftOpaqueX (tilePixels cv code) \<le> 1")
  case True
  then show ?thesis by (simp add: normalizeTile_id)
next
  case False
  let ?src = "tilePixels cv code"
  let ?X = "(code mod 16) * 16" and ?Y = "(code div 16) * 16"
  from False have "1 < leftOpaqueX ?src" by simp
  then obtain r where r: "leftOpaqueX ?src = int r" "1 < r" "r < 16" "colOpaque ?src r"
    by (rule leftOpaqueX_gt1)
  let ?shift = "int r - 1"
  let ?dst = "shiftTile ?src ?shift"
  let ?cv' = "putImageData cv ?dst ?X ?Y 16 16"
  have cv': "normalizeTile code cv = ?cv'"
    using False r(1) by (simp add: normalizeTile_unfold)
  from r(4) obtain y where y: "y < 16" "pixelOpaque ?src r y"
    unfolding colOpaque_def by blast
  have src_px: "imagePixel ?src (y * 16 + r) = canvasPixel cv (?X + r) (?Y + y)"
    by (rule tilePixels_xy[OF r(3) y(1)])
  have inside: "?X + r < cv_width cv \<and> ?Y + y < cv_height cv"
  proof (rule ccontr)
    assume "\<not> ?thesis"
    then have "canvasPixel cv (?X + r) (?Y + y) = transparent"
      by (auto simp: canvasPixel_def)
    with y(2) src_px show False
      by (simp add: pixelOpaque_def transparent_def alphaOf_def)
  qed
  have shift0: "0 \<le> ?shift" using r(2) by simp
  have one: "(1::nat) < 16" by simp
  have dst1: "?dst ! (y * 16 + 1) = imagePixel ?src (y * 16 + r)"
  proof -
    have "nat (int 1 + ?shift) = r" "int 1 + ?shift < 16" using r(2,3) by simp_all
    with shiftTile_nth[OF shift0 y(1) one, of ?src] show ?thesis by simp
  qed
  have "imagePixel (tilePixels ?cv' code) (y * 16 + 1) = canvasPixel ?cv' (?X + 1) (?Y + y)"
    by (rule tilePixels_xy[OF one y(1)])
  also have "\<dots> = imagePixel ?dst (y * 16 + 1)"
    using canvasPixel_put_same[OF one y(1), of cv ?dst "code mod 16" "code div 16"] inside r(2)
    by simp
  also have "\<dots> = ?dst ! (y * 16 + 1)"
    using y(1) by (simp add: imagePixel_def)
  also have "\<dots> = imagePixel ?src (y * 16 + r)" by (rule dst1)
  finally have "pixelOpaque (tilePixels ?cv' code) 1 y"
    using y(2) by (simp add: pixelOpaque_def)
  with y(1) have "colOpaque (tilePixels ?cv' code) 1"
    unfolding colOpaque_def by blast
  then have "leftOpaqueX (tilePixels ?cv' code) \<le> 1"
    by (rule leftOpaqueX_le1) simp
  then show ?thesis unfolding cv' .
qed

lemma fold_normalizeTile_keeps:
  assumes "code \<notin> set cs"
  shows "tilePixels (fold normalizeTile cs cv) code = tilePixels cv code"
  using assms
proof (induction cs arbitrary: cv)
  case Nil
  then show ?case by simp
next
  case (Cons c cs)
  then have "code \<noteq> c" "code \<notin> set cs" by auto
  then show ?case using Cons.IH[of "normalizeTile c cv"] by (simp add: normalizeTile_other)
qed

lemma fold_normalizeTile_margin:
  assumes "distinct cs" "code \<in> set cs"
  shows "leftOpaqueX (tilePixels (fold normalizeTile cs cv) code) \<le> 1"
  using assms
proof (induction cs arbitrary: cv)
  case Nil
  then show ?case by simp
next
  case (Cons c cs)
  show ?case
  proof (cases "code = c")
    case True
    with Cons.prems have "code \<notin> set cs" by simp
    then have "tilePixels (fold normalizeTile cs (normalizeTile c cv)) code =
               tilePixels (normalizeTile c cv) code"
      by (rule fold_normalizeTile_keeps)
    then show ?thesis using True normalizeTile_margin[of c cv] by simp
  next
    case False
    with Cons.prems have "distinct cs" "code \<in> set cs" by auto
    then show ?thesis using Cons.IH[of "normalizeTile c cv"] by simp
  qed
qed

lemma fold_normalizeTile_id:
  assumes "\<forall>code \<in> set cs. leftOpaqueX (tilePixels cv code) \<le> 1"
  shows "fold normalizeTile cs cv = cv"
  using assms by (induction cs) (simp_all add: normalizeTile_id)

text \<open>
  Claim C5 (left-margin normalization is idempotent). For every canvas, normalizing
  twice gives the same canvas as normalizing once; and after one pass the leftmost
  opaque column of each tile 32..126 is 0 or 1 (-1 stands for a tile with no opaque
  pixel).
\<close>

theorem normalize_idempotent:
  "normalizeGlyph00LeftMargins (normalizeGlyph00LeftMargins cv) = normalizeGlyph00LeftMargins cv
   \<and> (\<forall>code \<in> {32..126}.
        leftOpaqueX (tilePixels (normalizeGlyph00LeftMargins cv) code) \<le> 1)"
proof -
  let ?N = "normalizeGlyph00LeftMargins"
  have d: "distinct [32..<127::nat]" by (rule distinct_upt)
  have s: "set [32..<127] = {32..126::nat}" unfolding set_upt by auto
  have m: "leftOpaqueX (tilePixels (?N cv) code) \<le> 1"
    if "code \<in> set [32..<127]" for code
    unfolding normalizeGlyph00LeftMargins_def
    using d that by (rule fold_normalizeTile_margin)
  have id: "fold normalizeTile [32..<127] (?N cv) = ?N cv"
    by (rule fold_normalizeTile_id) (use m in blast)
  have "?N (?N cv) = fold normalizeTile [32..<127] (?N cv)"
    by (rule normalizeGlyph00LeftMargins_def)
  with id have twice: "?N (?N cv) = ?N cv" by (simp only:)
  have margin: "\<forall>code \<in> {32..126}. leftOpaqueX (tilePixels (?N cv) code) \<le> 1"
    using m unfolding s by blast
  from twice margin show ?thesis by (rule conjI)
qed

theorem normalize_idempotent_witness:
  "leftOpaqueX (tilePixels
      \<lparr>cv_width = 256, cv_height = 256,
       cv_px = (\<lambda>x y. if x = 3 \<and> y = 32 then (255, 255, 255, 255) else (0, 0, 0, 0))\<rparr> 32) = 3
   \<and> leftOpaqueX (tilePixels (normalizeGlyph00LeftMargins
      \<lparr>cv_width = 256, cv_height = 256,
       cv_px = (\<lambda>x y. if x = 3 \<and> y = 32 then (255, 255, 255, 255) else (0, 0, 0, 0))\<rparr>) 32) \<le> 1
   \<and> normalizeGlyph00LeftMargins (normalizeGlyph00LeftMargins
      \<lparr>cv_width = 256, cv_height = 256,
       cv_px = (\<lambda>x y. if x = 3 \<and> y = 32 then (255, 255, 255, 255) else (0, 0, 0, 0))\<rparr>)
     = normalizeGlyph00LeftMargins
      \<lparr>cv_width = 256, cv_height = 256,
       cv_px = (\<lambda>x y. if x = 3 \<and> y = 32 then (255, 255, 255, 255) else (0, 0, 0, 0))\<rparr>"
proof -
  let ?cv = "\<lparr>cv_width = 256, cv_height = 256,
       cv_px = (\<lambda>x y. if x = 3 \<and> y = 32 then (255, 255, 255, 255) else (0, 0, 0, 0))\<rparr>"
  have px: "pixelOpaque (tilePixels ?cv 32) x y \<longleftrightarrow> x = 3 \<and> y = 0" if "x < 16" "y < 16" for x y
    using that tilePixels_xy[OF that, of ?cv 32]
    by (auto simp: pixelOpaque_def canvasPixel_def alphaOf_def)
  have col: "colOpaque (tilePixels ?cv 32) x \<longleftrightarrow> x = 3" if "x < 16" for x
  proof
    assume "colOpaque (tilePixels ?cv 32) x"
    then obtain y where "y < 16" "pixelOpaque (tilePixels ?cv 32) x y"
      unfolding colOpaque_def by blast
    with px[OF that] show "x = 3" by blast
  next
    assume "x = 3"
    moreover have "pixelOpaque (tilePixels ?cv 32) 3 0" using px[of 3 0] by simp
    ultimately show "colOpaque (tilePixels ?cv 32) x"
      unfolding colOpaque_def by (intro exI[of _ 0]) simp
  qed
  have c3: "colOpaque (tilePixels ?cv 32) 3" using col[of 3] by simp
  from leftOpaqueX_cases[of "tilePixels ?cv 32"]
  have before: "leftOpaqueX (tilePixels ?cv 32) = 3"
  proof
    assume "leftOpaqueX (tilePixels ?cv 32) = - 1 \<and> (\<forall>x' < 16. \<not> colOpaque (tilePixels ?cv 32) x')"
    then have "\<not> colOpaque (tilePixels ?cv 32) 3" by simp
    with c3 show ?thesis by simp
  next
    assume "\<exists>r < 16. leftOpaqueX (tilePixels ?cv 32) = int r \<and> colOpaque (tilePixels ?cv 32) r
          \<and> (\<forall>x' < r. \<not> colOpaque (tilePixels ?cv 32) x')"
    then obtain r where r: "r < 16" "leftOpaqueX (tilePixels ?cv 32) = int r"
      "colOpaque (tilePixels ?cv 32) r" by blast
    from r(3) col[OF r(1)] have "r = 3" by simp
    with r(2) show ?thesis by simp
  qed
  have "(32::nat) \<in> {32..126}" by simp
  with normalize_idempotent[of ?cv] before show ?thesis by blast
qed

subsection \<open>The layout loop\<close>

text \<open>The layout is reasoned about with the arithmetic as it stands, not unfolded.\<close>

declare js_le.simps [simp del] js_lt.simps [simp del] js_neg.simps [simp del]
  js_add.simps [simp del] js_mul.simps [simp del] js_div.simps [simp del]
  js_round.simps [simp del]

declare js_add_NaN(2) [simp]

lemma drawLoop_fold:
  "drawLoop c tx i st = fold (drawStep c tx) [i..<length tx] st"
proof (induction c tx i st rule: drawLoop.induct)
  case (1 c tx i st)
  show ?case
  proof (cases "i < length tx")
    case True
    have "drawLoop c tx i st = drawLoop c tx (i + 1) (drawStep c tx i st)"
      using True by (subst drawLoop.simps) simp
    also have "\<dots> = fold (drawStep c tx) [i + 1..<length tx] (drawStep c tx i st)"
      using "1.IH"[OF True] .
    also have "\<dots> = fold (drawStep c tx) [i..<length tx] st"
      using True by (simp add: upt_conv_Cons)
    finally show ?thesis .
  next
    case False
    then show ?thesis by (subst drawLoop.simps) simp
  qed
qed

lemma drawLoop_stateAt:
  "drawLoop c tx 0 initialState = stateAt c tx (length tx)"
  by (simp add: drawLoop_fold stateAt_def)

lemma stateAt_0 [simp]: "stateAt c tx 0 = initialState"
  by (simp add: stateAt_def)

lemma stateAt_Suc: "stateAt c tx (Suc j) = drawStep c tx j (stateAt c tx j)"
  by (simp add: stateAt_def)

text \<open>What one round does to \<open>spans\<close>.\<close>

lemma pushAscii_spans:
  "\<exists>q. spans (pushAscii c code st) = spans st @ [q]"
  by (simp add: pushAscii_def Let_def split: prod.splits)

lemma pushGlyph_spans:
  "\<exists>q. spans (pushGlyph c code st) = spans st @ [q]"
  by (simp add: pushGlyph_def Let_def split: prod.splits)

lemma drawStep_space:
  "codePointAt tx i = 32 \<Longrightarrow> spans (drawStep c tx i st) = spans st"
  by (simp add: drawStep_def Let_def)

lemma drawStep_push:
  "codePointAt tx i \<noteq> 32 \<Longrightarrow> \<exists>q. spans (drawStep c tx i st) = spans st @ [q]"
  by (simp add: drawStep_def Let_def pushAscii_spans pushGlyph_spans)

lemma quadIndex_0 [simp]: "quadIndex tx 0 = 0"
  by (simp add: quadIndex_def)

lemma quadIndex_Suc:
  "quadIndex tx (Suc i) = (if codePointAt tx i \<noteq> 32 then Suc (quadIndex tx i) else quadIndex tx i)"
  by (simp add: quadIndex_def)

lemma length_spans_stateAt:
  "length (spans (stateAt c tx j)) = quadIndex tx j"
proof (induction j)
  case 0
  then show ?case by (simp add: initialState_def)
next
  case (Suc j)
  show ?case
  proof (cases "codePointAt tx j = 32")
    case True
    then show ?thesis using Suc by (simp add: stateAt_Suc drawStep_space quadIndex_Suc)
  next
    case False
    then obtain q where "spans (drawStep c tx j (stateAt c tx j)) = spans (stateAt c tx j) @ [q]"
      using drawStep_push by blast
    then show ?thesis using Suc False by (simp add: stateAt_Suc quadIndex_Suc)
  qed
qed

lemma spans_stateAt_prefix:
  "j \<le> k \<Longrightarrow> \<exists>qs. spans (stateAt c tx k) = spans (stateAt c tx j) @ qs"
proof (induction k)
  case 0
  then show ?case by simp
next
  case (Suc k)
  show ?case
  proof (cases "j = Suc k")
    case True
    then show ?thesis by simp
  next
    case False
    with Suc.prems have "j \<le> k" by simp
    then obtain qs where qs: "spans (stateAt c tx k) = spans (stateAt c tx j) @ qs"
      using Suc.IH by blast
    show ?thesis
    proof (cases "codePointAt tx k = 32")
      case True
      then show ?thesis using qs by (simp add: stateAt_Suc drawStep_space)
    next
      case False
      then obtain q where "spans (drawStep c tx k (stateAt c tx k)) = spans (stateAt c tx k) @ [q]"
        using drawStep_push by blast
      then show ?thesis using qs by (simp add: stateAt_Suc)
    qed
  qed
qed

text \<open>The quad pushed in round \<open>i\<close> stays at position \<open>quadIndex tx i\<close> until the end.\<close>

lemma emitted_quad:
  assumes "i < length tx" "codePointAt tx i \<noteq> 32"
  shows "quadIndex tx i < length (spans (stateAt c tx (length tx)))"
    and "spans (stateAt c tx (length tx)) ! quadIndex tx i =
         last (spans (drawStep c tx i (stateAt c tx i)))"
proof -
  obtain q where q: "spans (drawStep c tx i (stateAt c tx i)) = spans (stateAt c tx i) @ [q]"
    using drawStep_push[OF assms(2)] by blast
  have "Suc i \<le> length tx" using assms(1) by simp
  then obtain qs where qs: "spans (stateAt c tx (length tx)) = spans (stateAt c tx (Suc i)) @ qs"
    using spans_stateAt_prefix by blast
  have all: "spans (stateAt c tx (length tx)) = spans (stateAt c tx i) @ [q] @ qs"
    using q qs by (simp add: stateAt_Suc)
  have len: "length (spans (stateAt c tx i)) = quadIndex tx i"
    by (rule length_spans_stateAt)
  show "quadIndex tx i < length (spans (stateAt c tx (length tx)))"
    using all len by simp
  show "spans (stateAt c tx (length tx)) ! quadIndex tx i =
         last (spans (drawStep c tx i (stateAt c tx i)))"
    using all len q by (simp add: nth_append)
qed

text \<open>The successful call, in terms of the loop.\<close>

lemma draw_plan:
  assumes "draw images this tx opt = (Inr (Some pl), this')"
  shows "\<exists>asciiPk. ascii this = Some asciiPk
           \<and> this' = rendererAfter images this tx opt
           \<and> fst (ensureGlyphPacks images
                 (need_of (mode opt) (defaultOnly_of (mode opt) tx) tx) (glyphs this)) = {}
           \<and> p_spans pl = spans (stateAt (closureFor images this tx opt asciiPk) tx (length tx))
           \<and> p_penX pl = penX (stateAt (closureFor images this tx opt asciiPk) tx (length tx))
           \<and> p_refCenter pl = refCenter (closureFor images this tx opt asciiPk)"
proof (cases "ascii this")
  case None
  with assms show ?thesis by (simp add: draw_def)
next
  case (Some asciiPk)
  with assms show ?thesis
    by (auto simp: draw_def Let_def rendererAfter_def closureFor_def closure_of_def
        drawLoop_stateAt split: if_splits)
qed

lemma draw_succeeds:
  assumes "ascii this = Some asciiPk"
    and "fst (ensureGlyphPacks images
           (need_of (mode opt) (defaultOnly_of (mode opt) tx) tx) (glyphs this)) = {}"
  shows "\<exists>pl. draw images this tx opt = (Inr (Some pl), rendererAfter images this tx opt)"
  using assms by (simp add: draw_def Let_def rendererAfter_def)

subsection \<open>One round\<close>

lemma dp_round [simp]: "js_round (dp sc n) = dp sc n"
  by (simp add: dp_def)

lemma drawStep_ascii:
  assumes "codePointAt tx i \<noteq> 32"
    and "defaultOnly c = Some True \<or> (defaultOnly c = None \<and> isAsciiCode (codePointAt tx i))"
  shows "drawStep c tx i st = pushAscii c (codePointAt tx i) st"
  using assms by (auto simp: drawStep_def Let_def)

lemma drawStep_wide:
  assumes "wideRound (defaultOnly c) tx i"
  shows "drawStep c tx i st = pushGlyph c (codePointAt tx i) st"
  using assms by (auto simp: drawStep_def Let_def wideRound_def)

lemma round_cases:
  assumes "codePointAt tx i \<noteq> 32"
  shows "wideRound dOnly tx i
         \<or> dOnly = Some True \<or> (dOnly = None \<and> isAsciiCode (codePointAt tx i))"
  using assms by (cases dOnly) (auto simp: wideRound_def)

text \<open>The quad and the pen of \<open>pushGlyph\<close>.\<close>

lemma pushGlyph_quad:
  "q_pack (last (spans (pushGlyph c code st))) = fst (glyphPack c (codeHi code))"
  "q_x (last (spans (pushGlyph c code st))) = glyphPen c st"
  "q_y (last (spans (pushGlyph c code st))) =
     dp (c_scale c)
        (js_sub (refCenter c)
                (js_mul (centerRow (vmet (snd (glyphPack c (codeHi code))))) (Finite 1)))"
  "q_w (last (spans (pushGlyph c code st))) = dp (c_scale c) (Finite 16)"
  "q_h (last (spans (pushGlyph c code st))) = dp (c_scale c) (Finite 16)"
  "quadUV (last (spans (pushGlyph c code st))) =
     wideUV (snd (glyphPack c (codeHi code))) (codeLo code)"
  by (simp_all add: pushGlyph_def Let_def glyphPen_def quadUV_def wideUV_def split: prod.splits)

lemma pushGlyph_penX:
  "penX (pushGlyph c code st) =
     js_add (glyphPen c st)
       (js_round (js_mul (dp (c_scale c) (advOr (snd (glyphPack c (codeHi code))) (codeLo code) 17))
                         (c_spacingMul c)))"
  by (simp add: pushGlyph_def Let_def glyphPen_def split: prod.splits)

lemma pushGlyph_counters:
  "dqCount (pushGlyph c code st) = dqCount st" "sqCount (pushGlyph c code st) = sqCount st"
  by (simp_all add: pushGlyph_def Let_def split: prod.splits)

text \<open>The quad and the pen of \<open>pushAscii\<close>.\<close>

lemma pushAscii_quad:
  "q_x (last (spans (pushAscii c code st))) = asciiPen c st"
  "q_y (last (spans (pushAscii c code st))) =
     dp (c_scale c) (js_sub (refCenter c) (js_mul (centerRow (vmet (asciiPack c))) (c_ds c)))"
  "q_pack (last (spans (pushAscii c code st))) = fst (quoteSwap c code st (asciiUV (asciiPack c) code))"
  "quadUV (last (spans (pushAscii c code st))) =
     fst (snd (quoteSwap c code st (asciiUV (asciiPack c) code)))"
  by (simp_all add: pushAscii_def Let_def asciiPen_def asciiUV_def quadUV_def split: prod.splits)

lemma pushAscii_penX:
  "penX (pushAscii c code st) =
     js_add (asciiPen c st)
       (js_round (js_mul (dp (c_scale c) (js_mul (advOr (asciiPack c) code 9) (c_ds c)))
                         (c_spacingMul c)))"
  by (simp add: pushAscii_def Let_def asciiPen_def split: prod.splits)

lemma pushAscii_counters:
  "dqCount (pushAscii c code st) =
     (if defaultOnly c \<noteq> Some False \<and> code = 34 then dqCount st + 1 else dqCount st)"
  "sqCount (pushAscii c code st) =
     (if defaultOnly c \<noteq> Some False \<and> code = 39 then sqCount st + 1 else sqCount st)"
  by (simp_all add: pushAscii_def quoteSwap_def Let_def split: prod.splits)

lemma drawStep_space_state:
  assumes "codePointAt tx i = 32"
  shows "dqCount (drawStep c tx i st) = dqCount st" "sqCount (drawStep c tx i st) = sqCount st"
    "prevKind (drawStep c tx i st) = None"
  using assms by (simp_all add: drawStep_def Let_def)

subsection \<open>Mode resolution\<close>

lemma closureFor_fields [simp]:
  "defaultOnly (closureFor images this tx opt a) = defaultOnly_of (mode opt) tx"
  "asciiPack (closureFor images this tx opt a) = a"
  "c_glyphs (closureFor images this tx opt a) = glyphs (rendererAfter images this tx opt)"
  "glyph00 (closureFor images this tx opt a) = glyphs (rendererAfter images this tx opt) ''00''"
  "c_quoteAlt (closureFor images this tx opt a) = quoteAlt this"
  "c_scale (closureFor images this tx opt a) = scale opt"
  "c_ds (closureFor images this tx opt a) = ds opt"
  "c_spaceMul (closureFor images this tx opt a) = spaceMul opt"
  "c_spacingMul (closureFor images this tx opt a) = spacingMul opt"
  "c_glyphTrackPx (closureFor images this tx opt a) = glyphTrackPx opt"
  "c_asciiAfterGlyphPadPx (closureFor images this tx opt a) = asciiAfterGlyphPadPx opt"
  by (simp_all add: closureFor_def closure_of_def rendererAfter_def)

lemma lineH_of_mode [simp]: "lineH_of (opt\<lparr>mode := m\<rparr>) dOnly = lineH_of opt dOnly"
  by (simp add: lineH_of_def)

lemma refCenter_of_mode [simp]:
  "refCenter_of (opt\<lparr>mode := m\<rparr>) hg a g = refCenter_of opt hg a g"
  by (simp add: refCenter_of_def)

lemma closure_of_mode [simp]:
  "closure_of (opt\<lparr>mode := m\<rparr>) dOnly a this refC = closure_of opt dOnly a this refC"
  by (simp add: closure_of_def)

text \<open>
  Claim C1, as amended. In mode \<open>auto\<close>, a text with a code point above 0x7F is laid
  out exactly as in mode \<open>glyph\<close> (every character through the wide pages); a text
  whose code points are all at most 0x7F is laid out exactly as in mode \<open>default\<close>.
\<close>

theorem auto_mode_resolution:
  "(list_ex (\<lambda>cp. \<not> isAsciiCode cp) (codePoints tx) \<longrightarrow>
      draw images this tx (opt\<lparr>mode := ModeAuto\<rparr>) = draw images this tx (opt\<lparr>mode := ModeGlyph\<rparr>))
   \<and> (list_all isAsciiCode (codePoints tx) \<longrightarrow>
      draw images this tx (opt\<lparr>mode := ModeAuto\<rparr>) = draw images this tx (opt\<lparr>mode := ModeDefault\<rparr>))"
proof (intro conjI impI)
  assume "list_ex (\<lambda>cp. \<not> isAsciiCode cp) (codePoints tx)"
  then have n: "\<not> list_all isAsciiCode (codePoints tx)"
    by (simp add: list_ex_iff list_all_iff)
  have d: "defaultOnly_of ModeAuto tx = Some False" "defaultOnly_of ModeGlyph tx = Some False"
    using n by (simp_all add: defaultOnly_of_def)
  have "need_of ModeAuto (Some False) tx = need_of ModeGlyph (Some False) tx"
    by (simp add: need_of_def)
  moreover have "hasGlyph_of ModeAuto (Some False) tx = hasGlyph_of ModeGlyph (Some False) tx"
    by (simp add: hasGlyph_of_def)
  ultimately show "draw images this tx (opt\<lparr>mode := ModeAuto\<rparr>) = draw images this tx (opt\<lparr>mode := ModeGlyph\<rparr>)"
    unfolding draw_def by (simp add: d Let_def split: option.split)
next
  assume y: "list_all isAsciiCode (codePoints tx)"
  have d: "defaultOnly_of ModeAuto tx = Some True" "defaultOnly_of ModeDefault tx = Some True"
    using y by (simp_all add: defaultOnly_of_def)
  have "need_of ModeAuto (Some True) tx = need_of ModeDefault (Some True) tx"
    by (simp add: need_of_def)
  moreover have "hasGlyph_of ModeAuto (Some True) tx = hasGlyph_of ModeDefault (Some True) tx"
    by (simp add: hasGlyph_of_def)
  ultimately show "draw images this tx (opt\<lparr>mode := ModeAuto\<rparr>) = draw images this tx (opt\<lparr>mode := ModeDefault\<rparr>)"
    unfolding draw_def by (simp add: d Let_def split: option.split)
qed


lemma ensure_cached:
  assumes "\<forall>hi \<in> need. cache hi \<noteq> None"
  shows "ensureGlyphPacks images need cache = ({}, cache)"
  using assms by (auto simp: ensureGlyphPacks_def fun_eq_iff)

lemma rendererAfter_cached:
  assumes "\<forall>hi \<in> need_of (mode opt) (defaultOnly_of (mode opt) tx) tx. glyphs this hi \<noteq> None"
  shows "rendererAfter images this tx opt = this"
  using ensure_cached[OF assms] by (simp add: rendererAfter_def)

lemma codeHi_examples: "codeHi 65 = ''00''" "codeHi 44032 = ''AC''" "codeHi 34 = ''00''"
  by (simp_all add: codeHi_def hex2_def hexDigit_def)

lemma example_text:
  "codePoints [0x41, 0xAC00] = [65, 44032]"
  "codePointAt [0x41, 0xAC00] 0 = 65"
  "codePointAt [0x41, 0xAC00] (Suc 0) = 44032"
  by (simp_all add: codePointAt_def isLead_def isTrail_def)

lemma example_need:
  "need_of ModeAuto (Some False) [0x41, 0xAC00] = {''00'', ''AC''}"
  "need_of ModeGlyph (Some False) [0x41, 0xAC00] = {''00'', ''AC''}"
  "need_of ModeMixed None [0x41, 0xAC00] = {''AC''}"
proof -
  have "{cp \<in> set (codePoints [0x41, 0xAC00]). \<not> isAsciiCode cp} = {44032}"
    by (auto simp: isLead_def isTrail_def isAsciiCode_def)
  then show "need_of ModeMixed None [0x41, 0xAC00] = {''AC''}"
    by (simp add: need_of_def codeHi_examples)
qed (auto simp: need_of_def isLead_def isTrail_def codeHi_examples)

lemma example_defaultOnly:
  "defaultOnly_of ModeAuto [0x41, 0xAC00] = Some False"
  "defaultOnly_of ModeGlyph [0x41, 0xAC00] = Some False"
  "defaultOnly_of ModeMixed [0x41, 0xAC00] = None"
  by (simp_all add: defaultOnly_of_def isLead_def isTrail_def isAsciiCode_def)

lemma example_after:
  "m = ModeAuto \<or> m = ModeGlyph \<or> m = ModeMixed \<Longrightarrow>
   rendererAfter noImages exampleRenderer [0x41, 0xAC00] (opt\<lparr>mode := m\<rparr>) = exampleRenderer"
  by (rule rendererAfter_cached)
     (auto simp: example_need example_defaultOnly exampleRenderer_def)

lemma example_loaded:
  "m = ModeAuto \<or> m = ModeGlyph \<or> m = ModeMixed \<Longrightarrow>
   fst (ensureGlyphPacks noImages (need_of m (defaultOnly_of m [0x41, 0xAC00]) [0x41, 0xAC00])
          (glyphs exampleRenderer)) = {}"
  by (subst ensure_cached)
     (auto simp: example_need example_defaultOnly exampleRenderer_def)

theorem auto_mode_counterexample:
  "list_ex (\<lambda>cp. \<not> isAsciiCode cp) (codePoints [0x41, 0xAC00])
   \<and> draw noImages exampleRenderer [0x41, 0xAC00] (defaultOpts\<lparr>mode := ModeAuto\<rparr>)
     \<noteq> draw noImages exampleRenderer [0x41, 0xAC00] (defaultOpts\<lparr>mode := ModeMixed\<rparr>)"
proof -
  let ?tx = "[0x41, 0xAC00] :: jsstring"
  let ?oa = "defaultOpts\<lparr>mode := ModeAuto\<rparr>" and ?om = "defaultOpts\<lparr>mode := ModeMixed\<rparr>"
  let ?ca = "closureFor noImages exampleRenderer ?tx ?oa asciiExample"
  let ?cm = "closureFor noImages exampleRenderer ?tx ?om asciiExample"
  have a: "ascii exampleRenderer = Some asciiExample" by (simp add: exampleRenderer_def)
  have i0: "0 < length ?tx" and cp: "codePointAt ?tx 0 \<noteq> 32" by (simp_all add: example_text)
  have q0: "quadIndex ?tx 0 = 0" by simp
  have wide: "wideRound (defaultOnly ?ca) ?tx 0"
    by (simp add: wideRound_def example_text example_defaultOnly)
  have "q_pack (last (spans (drawStep ?ca ?tx 0 (stateAt ?ca ?tx 0)))) = fst (glyphPack ?ca (codeHi 65))"
    unfolding drawStep_wide[OF wide] pushGlyph_quad by (simp add: example_text)
  also have "\<dots> = GlyphPack ''00''"
  proof -
    have "rendererAfter noImages exampleRenderer ?tx ?oa = exampleRenderer"
      by (rule example_after) simp
    then have "c_glyphs ?ca ''00'' = glyphs exampleRenderer ''00''" by simp
    also have "\<dots> = Some wideExample" by (simp add: exampleRenderer_def)
    finally show ?thesis by (simp add: glyphPack_def codeHi_examples)
  qed
  finally have pa: "q_pack (spans (stateAt ?ca ?tx (length ?tx)) ! 0) = GlyphPack ''00''"
    using emitted_quad(2)[OF i0 cp, of ?ca] q0 by simp
  have asc: "defaultOnly ?cm = Some True \<or> (defaultOnly ?cm = None \<and> isAsciiCode (codePointAt ?tx 0))"
    by (simp add: example_text example_defaultOnly isAsciiCode_def)
  have "q_pack (last (spans (drawStep ?cm ?tx 0 (stateAt ?cm ?tx 0)))) =
        fst (quoteSwap ?cm 65 (stateAt ?cm ?tx 0) (asciiUV (asciiPack ?cm) 65))"
    unfolding drawStep_ascii[OF cp asc] pushAscii_quad by (simp add: example_text)
  also have "\<dots> = AsciiPack" by (simp add: quoteSwap_def)
  finally have pm: "q_pack (spans (stateAt ?cm ?tx (length ?tx)) ! 0) = AsciiPack"
    using emitted_quad(2)[OF i0 cp, of ?cm] q0 by simp
  obtain pla where pla: "draw noImages exampleRenderer ?tx ?oa = (Inr (Some pla), rendererAfter noImages exampleRenderer ?tx ?oa)"
    using draw_succeeds[OF a, of noImages ?oa ?tx] example_loaded[of ModeAuto] by auto
  obtain plm where plm: "draw noImages exampleRenderer ?tx ?om = (Inr (Some plm), rendererAfter noImages exampleRenderer ?tx ?om)"
    using draw_succeeds[OF a, of noImages ?om ?tx] example_loaded[of ModeMixed] by auto
  have sa: "p_spans pla = spans (stateAt ?ca ?tx (length ?tx))"
    using draw_plan[OF pla] a by auto
  have sm: "p_spans plm = spans (stateAt ?cm ?tx (length ?tx))"
    using draw_plan[OF plm] a by auto
  have "pla \<noteq> plm"
  proof
    assume "pla = plm"
    then have "q_pack (p_spans pla ! 0) = q_pack (p_spans plm ! 0)" by simp
    then show False unfolding sa sm pa pm by simp
  qed
  then have "draw noImages exampleRenderer ?tx ?oa \<noteq> draw noImages exampleRenderer ?tx ?om"
    unfolding pla plm by simp
  moreover have "list_ex (\<lambda>cp. \<not> isAsciiCode cp) (codePoints ?tx)"
    by (simp add: isLead_def isTrail_def isAsciiCode_def)
  ultimately show ?thesis by simp
qed

theorem auto_mode_resolution_witness:
  "draw noImages exampleRenderer [0x41, 0xAC00] (defaultOpts\<lparr>mode := ModeAuto\<rparr>)
     = draw noImages exampleRenderer [0x41, 0xAC00] (defaultOpts\<lparr>mode := ModeGlyph\<rparr>)
   \<and> draw noImages exampleRenderer [0x41] (defaultOpts\<lparr>mode := ModeAuto\<rparr>)
     = draw noImages exampleRenderer [0x41] (defaultOpts\<lparr>mode := ModeDefault\<rparr>)"
proof -
  have w: "list_ex (\<lambda>cp. \<not> isAsciiCode cp) (codePoints [0x41, 0xAC00])"
    by (simp add: isLead_def isTrail_def isAsciiCode_def)
  have n: "list_all isAsciiCode (codePoints [0x41])"
    by (simp add: isAsciiCode_def)
  from auto_mode_resolution[of "[0x41, 0xAC00]" noImages exampleRenderer defaultOpts] w
       auto_mode_resolution[of "[0x41]" noImages exampleRenderer defaultOpts] n
  show ?thesis by blast
qed

subsection \<open>Page discovery\<close>

lemma ensure_loaded:
  assumes "fst (ensureGlyphPacks images need cache) = {}" "hi \<in> need"
  shows "snd (ensureGlyphPacks images need cache) hi \<noteq> None"
  using assms by (auto simp: ensureGlyphPacks_def)

text \<open>
  Claim C2, as amended. In mode \<open>glyph\<close>, and in mode \<open>auto\<close> with a code point above
  0x7F, the requested set is page "00" and the high byte of every code point of the
  text. In mode \<open>mixed\<close> it is exactly the high bytes of the code points above 0x7F
  (page "00" only when one of them has high byte 00). A call that lays the text out
  has every requested page loaded, and lays out with those pages.
\<close>

theorem page_discovery:
  "((m = ModeGlyph \<or> (m = ModeAuto \<and> list_ex (\<lambda>cp. \<not> isAsciiCode cp) (codePoints tx))) \<longrightarrow>
      need_of m (defaultOnly_of m tx) tx = insert ''00'' (codeHi ` set (codePoints tx)))
   \<and> (m = ModeMixed \<longrightarrow>
      need_of m (defaultOnly_of m tx) tx = codeHi ` {cp \<in> set (codePoints tx). \<not> isAsciiCode cp})
   \<and> (draw images this tx opt = (Inr (Some pl), this') \<longrightarrow>
      (\<forall>hi \<in> need_of (mode opt) (defaultOnly_of (mode opt) tx) tx. glyphs this' hi \<noteq> None)
      \<and> (\<exists>a. ascii this = Some a
             \<and> p_spans pl = spans (drawLoop (closureFor images this tx opt a) tx 0 initialState)
             \<and> c_glyphs (closureFor images this tx opt a) = glyphs this'))"
proof (intro conjI impI)
  assume "m = ModeGlyph \<or> (m = ModeAuto \<and> list_ex (\<lambda>cp. \<not> isAsciiCode cp) (codePoints tx))"
  then have "defaultOnly_of m tx = Some False"
    by (auto simp: defaultOnly_of_def list_ex_iff list_all_iff)
  then show "need_of m (defaultOnly_of m tx) tx = insert ''00'' (codeHi ` set (codePoints tx))"
    by (simp add: need_of_def)
next
  assume "m = ModeMixed"
  then show "need_of m (defaultOnly_of m tx) tx = codeHi ` {cp \<in> set (codePoints tx). \<not> isAsciiCode cp}"
    by (simp add: need_of_def defaultOnly_of_def)
next
  assume d: "draw images this tx opt = (Inr (Some pl), this')"
  from draw_plan[OF d] obtain a where a: "ascii this = Some a"
    and t: "this' = rendererAfter images this tx opt"
    and l: "fst (ensureGlyphPacks images
                 (need_of (mode opt) (defaultOnly_of (mode opt) tx) tx) (glyphs this)) = {}"
    and s: "p_spans pl = spans (stateAt (closureFor images this tx opt a) tx (length tx))"
    by blast
  show "\<forall>hi \<in> need_of (mode opt) (defaultOnly_of (mode opt) tx) tx. glyphs this' hi \<noteq> None"
    using ensure_loaded[OF l] by (simp add: t rendererAfter_def)
  have "p_spans pl = spans (drawLoop (closureFor images this tx opt a) tx 0 initialState)"
    using s by (simp add: drawLoop_stateAt)
  then show "\<exists>a. ascii this = Some a
             \<and> p_spans pl = spans (drawLoop (closureFor images this tx opt a) tx 0 initialState)
             \<and> c_glyphs (closureFor images this tx opt a) = glyphs this'"
    using a t by simp
qed

theorem page_discovery_counterexample:
  "list_ex (\<lambda>cp. \<not> isAsciiCode cp) (codePoints [0xAC00])
   \<and> ''00'' \<notin> need_of ModeMixed (defaultOnly_of ModeMixed [0xAC00]) [0xAC00]"
proof -
  have "{cp \<in> set (codePoints [0xAC00]). \<not> isAsciiCode cp} = {44032}"
    by (auto simp: isAsciiCode_def)
  then have "need_of ModeMixed (defaultOnly_of ModeMixed [0xAC00]) [0xAC00] = {''AC''}"
    by (simp add: need_of_def defaultOnly_of_def codeHi_examples)
  then show ?thesis by (simp add: isAsciiCode_def)
qed

theorem page_discovery_witness:
  "need_of ModeGlyph (defaultOnly_of ModeGlyph [0x41, 0xAC00]) [0x41, 0xAC00] = {''00'', ''AC''}
   \<and> need_of ModeMixed (defaultOnly_of ModeMixed [0x41, 0xAC00]) [0x41, 0xAC00] = {''AC''}
   \<and> (\<exists>pl. draw noImages exampleRenderer [0x41, 0xAC00] (defaultOpts\<lparr>mode := ModeGlyph\<rparr>)
              = (Inr (Some pl), exampleRenderer))
   \<and> glyphs exampleRenderer ''00'' \<noteq> None \<and> glyphs exampleRenderer ''AC'' \<noteq> None"
proof -
  let ?tx = "[0x41, 0xAC00] :: jsstring"
  let ?og = "defaultOpts\<lparr>mode := ModeGlyph\<rparr>"
  have a: "ascii exampleRenderer = Some asciiExample" by (simp add: exampleRenderer_def)
  have ra: "rendererAfter noImages exampleRenderer ?tx ?og = exampleRenderer"
    by (rule example_after) simp
  obtain pl where pl: "draw noImages exampleRenderer ?tx ?og = (Inr (Some pl), exampleRenderer)"
    using draw_succeeds[OF a, of noImages ?og ?tx] example_loaded[of ModeGlyph] ra by auto
  have hi: "codeHi ` set (codePoints ?tx) = {''00'', ''AC''}"
    unfolding example_text(1) by (simp add: codeHi_examples)
  have lo: "codeHi ` {cp \<in> set (codePoints ?tx). \<not> isAsciiCode cp} = {''AC''}"
    using example_need(3) by (simp add: need_of_def)
  have g: "mode ?og = ModeGlyph" by simp
  note pd = page_discovery[of ModeGlyph ?tx noImages exampleRenderer ?og pl exampleRenderer]
  note pm = page_discovery[of ModeMixed ?tx noImages exampleRenderer ?og pl exampleRenderer]
  have n1: "need_of ModeGlyph (defaultOnly_of ModeGlyph ?tx) ?tx = {''00'', ''AC''}"
    using pd unfolding hi by blast
  have n2: "need_of ModeMixed (defaultOnly_of ModeMixed ?tx) ?tx = {''AC''}"
    using pm unfolding lo by blast
  have "\<forall>hi \<in> need_of (mode ?og) (defaultOnly_of (mode ?og) ?tx) ?tx. glyphs exampleRenderer hi \<noteq> None"
    using pd pl by blast
  then have "\<forall>hi \<in> {''00'', ''AC''}. glyphs exampleRenderer hi \<noteq> None"
    unfolding g n1 .
  then have n3: "glyphs exampleRenderer ''00'' \<noteq> None" "glyphs exampleRenderer ''AC'' \<noteq> None"
    by blast+
  have n4: "\<exists>pl. draw noImages exampleRenderer ?tx ?og = (Inr (Some pl), exampleRenderer)"
    using pl by blast
  from n1 n2 n4 n3 show ?thesis by (intro conjI)
qed

subsection \<open>Quote alternation\<close>

lemma occurrences_0 [simp]: "occurrences tx q 0 = 0"
  by (simp add: occurrences_def)

lemma occurrences_Suc:
  "occurrences tx q (Suc i) =
     (if codePointAt tx i = q then Suc (occurrences tx q i) else occurrences tx q i)"
  by (simp add: occurrences_def)

text \<open>Outside forced-wide mode the two counters count the quotes read so far.\<close>

lemma quote_counters:
  assumes "defaultOnly c \<noteq> Some False"
  shows "dqCount (stateAt c tx j) = occurrences tx 34 j
       \<and> sqCount (stateAt c tx j) = occurrences tx 39 j"
proof (induction j)
  case 0
  then show ?case by (simp add: initialState_def)
next
  case (Suc j)
  let ?st = "stateAt c tx j" and ?cp = "codePointAt tx j"
  show ?case
  proof (cases "?cp = 32")
    case True
    then show ?thesis
      using Suc by (simp add: stateAt_Suc drawStep_space_state occurrences_Suc)
  next
    case False
    from round_cases[OF False, of "defaultOnly c"] show ?thesis
    proof
      assume w: "wideRound (defaultOnly c) tx j"
      with assms have "\<not> isAsciiCode ?cp" by (auto simp: wideRound_def)
      then have "?cp \<noteq> 34" "?cp \<noteq> 39" by (auto simp: isAsciiCode_def)
      then show ?thesis
        using Suc by (simp add: stateAt_Suc drawStep_wide[OF w] pushGlyph_counters occurrences_Suc)
    next
      assume "defaultOnly c = Some True \<or> (defaultOnly c = None \<and> isAsciiCode ?cp)"
      then have "drawStep c tx j ?st = pushAscii c ?cp ?st"
        by (rule drawStep_ascii[OF False])
      then show ?thesis
        using Suc assms by (simp add: stateAt_Suc pushAscii_counters occurrences_Suc)
    qed
  qed
qed

lemma odd_count: "(n + 1) mod 2 = 1 \<longleftrightarrow> odd (n + 1)" for n :: nat
  by presburger

lemma quoteSwap_dq:
  assumes "defaultOnly c \<noteq> Some False"
  shows "quoteSwap c 34 st uv =
     (if odd (dqCount st + 1) \<and> c_quoteAlt c 34 \<noteq> None
      then (QuoteAltPack 34, (Finite 0, Finite 0, Finite 1, Finite 1), dqCount st + 1, sqCount st)
      else (AsciiPack, uv, dqCount st + 1, sqCount st))"
  using assms unfolding quoteSwap_def Let_def odd_count by simp

lemma quoteSwap_sq:
  assumes "defaultOnly c \<noteq> Some False"
  shows "quoteSwap c 39 st uv =
     (if odd (sqCount st + 1) \<and> c_quoteAlt c 39 \<noteq> None
      then (QuoteAltPack 39, (Finite 0, Finite 0, Finite 1, Finite 1), dqCount st, sqCount st + 1)
      else (AsciiPack, uv, dqCount st, sqCount st + 1))"
  using assms unfolding quoteSwap_def Let_def odd_count by simp

lemma quote_round:
  assumes nf: "defaultOnly c \<noteq> Some False" and i: "i < length tx"
    and q: "codePointAt tx i = q" "q = 34 \<or> q = 39"
  shows "quadIndex tx i < length (spans (stateAt c tx (length tx)))"
    and "q_pack (spans (stateAt c tx (length tx)) ! quadIndex tx i) =
           (if odd (occurrences tx q (Suc i)) \<and> c_quoteAlt c q \<noteq> None
            then QuoteAltPack q else AsciiPack)"
    and "quadUV (spans (stateAt c tx (length tx)) ! quadIndex tx i) =
           (if odd (occurrences tx q (Suc i)) \<and> c_quoteAlt c q \<noteq> None
            then (Finite 0, Finite 0, Finite 1, Finite 1) else asciiUV (asciiPack c) q)"
proof -
  let ?st = "stateAt c tx i"
  have ns: "codePointAt tx i \<noteq> 32" using q by auto
  have asc: "isAsciiCode (codePointAt tx i)" using q by (auto simp: isAsciiCode_def)
  have "defaultOnly c = Some True \<or> (defaultOnly c = None \<and> isAsciiCode (codePointAt tx i))"
    using nf asc by (cases "defaultOnly c") auto
  then have step: "drawStep c tx i ?st = pushAscii c q ?st"
    using drawStep_ascii[OF ns] q(1) by simp
  note cnt = quote_counters[OF nf, of tx i]
  have occ: "occurrences tx q (Suc i) = occurrences tx q i + 1"
    using q(1) by (simp add: occurrences_Suc)
  have sw: "quoteSwap c q ?st (asciiUV (asciiPack c) q) =
     (if odd (occurrences tx q (Suc i)) \<and> c_quoteAlt c q \<noteq> None
      then (QuoteAltPack q, (Finite 0, Finite 0, Finite 1, Finite 1),
            fst (snd (snd (quoteSwap c q ?st (asciiUV (asciiPack c) q)))),
            snd (snd (snd (quoteSwap c q ?st (asciiUV (asciiPack c) q)))))
      else (AsciiPack, asciiUV (asciiPack c) q,
            fst (snd (snd (quoteSwap c q ?st (asciiUV (asciiPack c) q)))),
            snd (snd (snd (quoteSwap c q ?st (asciiUV (asciiPack c) q))))))"
    using q(2)
  proof
    assume "q = 34"
    then show ?thesis using cnt occ by (simp add: quoteSwap_dq[OF nf])
  next
    assume "q = 39"
    then show ?thesis using cnt occ by (simp add: quoteSwap_sq[OF nf])
  qed
  show "quadIndex tx i < length (spans (stateAt c tx (length tx)))"
    by (rule emitted_quad(1)[OF i ns])
  have e: "spans (stateAt c tx (length tx)) ! quadIndex tx i = last (spans (pushAscii c q ?st))"
    using emitted_quad(2)[OF i ns, of c] step by simp
  show "q_pack (spans (stateAt c tx (length tx)) ! quadIndex tx i) =
           (if odd (occurrences tx q (Suc i)) \<and> c_quoteAlt c q \<noteq> None
            then QuoteAltPack q else AsciiPack)"
    unfolding e pushAscii_quad by (subst sw) simp
  show "quadUV (spans (stateAt c tx (length tx)) ! quadIndex tx i) =
           (if odd (occurrences tx q (Suc i)) \<and> c_quoteAlt c q \<noteq> None
            then (Finite 0, Finite 0, Finite 1, Finite 1) else asciiUV (asciiPack c) q)"
    unfolding e pushAscii_quad by (subst sw) simp
qed

text \<open>
  Claim C6 (quote alternation). In a call that is not in forced-wide mode the two
  counters start at zero, and the quad of the n-th \<open>"\<close> (code 34), likewise of the n-th
  \<open>'\<close> (code 39), draws the quote-alternate pack with UVs 0..1 exactly when n is odd and
  the alternate exists, and the default tile of the ASCII atlas otherwise; n counts the
  occurrences of that one character only.
\<close>

theorem quote_alternation:
  assumes a: "ascii this = Some a"
    and l: "fst (ensureGlyphPacks images
                 (need_of (mode opt) (defaultOnly_of (mode opt) tx) tx) (glyphs this)) = {}"
    and nf: "defaultOnly_of (mode opt) tx \<noteq> Some False"
    and i: "i < length tx" and q: "codePointAt tx i = q" "q = 34 \<or> q = 39"
  shows "dqCount initialState = 0 \<and> sqCount initialState = 0
    \<and> (\<exists>pl. draw images this tx opt = (Inr (Some pl), rendererAfter images this tx opt)
         \<and> quadIndex tx i < length (p_spans pl)
         \<and> (if odd (occurrences tx q (Suc i)) \<and> quoteAlt this q \<noteq> None
            then q_pack (p_spans pl ! quadIndex tx i) = QuoteAltPack q
               \<and> quadUV (p_spans pl ! quadIndex tx i) = (Finite 0, Finite 0, Finite 1, Finite 1)
            else q_pack (p_spans pl ! quadIndex tx i) = AsciiPack
               \<and> quadUV (p_spans pl ! quadIndex tx i) = asciiUV a q))"
proof -
  let ?c = "closureFor images this tx opt a"
  obtain pl where pl: "draw images this tx opt = (Inr (Some pl), rendererAfter images this tx opt)"
    using draw_succeeds[OF a l] by blast
  have s: "p_spans pl = spans (stateAt ?c tx (length tx))"
    using draw_plan[OF pl] a by auto
  have nf': "defaultOnly ?c \<noteq> Some False" using nf by simp
  note r = quote_round[OF nf' i q]
  have "quadIndex tx i < length (p_spans pl)" using r(1) s by simp
  moreover have "if odd (occurrences tx q (Suc i)) \<and> quoteAlt this q \<noteq> None
            then q_pack (p_spans pl ! quadIndex tx i) = QuoteAltPack q
               \<and> quadUV (p_spans pl ! quadIndex tx i) = (Finite 0, Finite 0, Finite 1, Finite 1)
            else q_pack (p_spans pl ! quadIndex tx i) = AsciiPack
               \<and> quadUV (p_spans pl ! quadIndex tx i) = asciiUV a q"
    using r(2,3) unfolding s by simp
  moreover have "dqCount initialState = 0 \<and> sqCount initialState = 0"
    by (simp add: initialState_def)
  ultimately show ?thesis using pl by blast
qed


lemma quoted_text:
  "codePointAt [34, 97, 34, 32, 34, 98, 34] 0 = 34"
  "codePointAt [34, 97, 34, 32, 34, 98, 34] (Suc 0) = 97"
  "codePointAt [34, 97, 34, 32, 34, 98, 34] (Suc (Suc 0)) = 34"
  "codePointAt [34, 97, 34, 32, 34, 98, 34] (Suc (Suc (Suc 0))) = 32"
  "codePointAt [34, 97, 34, 32, 34, 98, 34] (Suc (Suc (Suc (Suc 0)))) = 34"
  by (simp_all add: codePointAt_def isLead_def)

theorem quote_alternation_witness:
  "\<exists>pl. draw noImages exampleRenderer [34, 97, 34, 32, 34, 98, 34] (defaultOpts\<lparr>mode := ModeDefault\<rparr>)
          = (Inr (Some pl), exampleRenderer)
     \<and> q_pack (p_spans pl ! 0) = QuoteAltPack 34
     \<and> q_pack (p_spans pl ! 2) = AsciiPack
     \<and> q_pack (p_spans pl ! 3) = QuoteAltPack 34"
proof -
  let ?tx = "[34, 97, 34, 32, 34, 98, 34] :: jsstring"
  let ?o = "defaultOpts\<lparr>mode := ModeDefault\<rparr>"
  have a: "ascii exampleRenderer = Some asciiExample" by (simp add: exampleRenderer_def)
  have d: "defaultOnly_of ModeDefault ?tx = Some True" by (simp add: defaultOnly_of_def)
  have n: "need_of ModeDefault (Some True) ?tx = {}"
    by (simp add: need_of_def)
  have l: "fst (ensureGlyphPacks noImages (need_of (mode ?o) (defaultOnly_of (mode ?o) ?tx) ?tx)
                  (glyphs exampleRenderer)) = {}"
    by (simp add: d n ensureGlyphPacks_def)
  have ra: "rendererAfter noImages exampleRenderer ?tx ?o = exampleRenderer"
    by (rule rendererAfter_cached) (simp add: d n)
  have nf: "defaultOnly_of (mode ?o) ?tx \<noteq> Some False" by (simp add: d)
  have alt: "quoteAlt exampleRenderer 34 \<noteq> None" by (simp add: exampleRenderer_def)
  have i0: "0 < length ?tx" and i2: "2 < length ?tx" and i4: "4 < length ?tx" by simp_all
  have c0: "codePointAt ?tx 0 = 34" and c2: "codePointAt ?tx 2 = 34" and c4: "codePointAt ?tx 4 = 34"
    by (simp_all add: codePointAt_def isLead_def)
  have q: "(34::nat) = 34 \<or> (34::nat) = 39" by simp
  have oc: "occurrences ?tx 34 (Suc 0) = 1" "occurrences ?tx 34 (Suc 2) = 2"
    "occurrences ?tx 34 (Suc 4) = 3"
    by (simp_all add: eval_nat_numeral occurrences_Suc quoted_text)
  have qi: "quadIndex ?tx 0 = 0" "quadIndex ?tx 2 = 2" "quadIndex ?tx 4 = 3"
    by (simp_all add: eval_nat_numeral quadIndex_Suc quoted_text)
  from quote_alternation[OF a l nf i0 c0 q]
  obtain pl where pl: "draw noImages exampleRenderer ?tx ?o = (Inr (Some pl), exampleRenderer)"
    and p0: "q_pack (p_spans pl ! 0) = QuoteAltPack 34"
    unfolding ra oc qi using alt by auto
  from quote_alternation[OF a l nf i2 c2 q]
  have p2: "q_pack (p_spans pl ! 2) = AsciiPack"
    unfolding ra oc qi pl by auto
  from quote_alternation[OF a l nf i4 c4 q]
  have p4: "q_pack (p_spans pl ! 3) = QuoteAltPack 34"
    unfolding ra oc qi pl using alt by auto
  from pl p0 p2 p4 show ?thesis by blast
qed

subsection \<open>Baseline unification\<close>

lemma pairCodePoint_big: "0x10000 \<le> pairCodePoint x y"
  by (simp add: pairCodePoint_def)

lemma codePoints_ascii_iff:
  "list_all isAsciiCode (codePoints s) \<longleftrightarrow> (\<forall>u \<in> set s. unat u \<le> 0x7F)"
proof (induction s rule: codePoints.induct)
  case 1
  then show ?case by simp
next
  case (2 a)
  then show ?case by (simp add: isAsciiCode_def)
next
  case (3 a b s)
  show ?case
  proof (cases "isLead (unat a) \<and> isTrail (unat b)")
    case True
    then have "\<not> unat a \<le> 0x7F" by (simp add: isLead_def)
    moreover have "\<not> isAsciiCode (pairCodePoint (unat a) (unat b))"
      using pairCodePoint_big[of "unat a" "unat b"] by (simp add: isAsciiCode_def)
    ultimately show ?thesis using True by simp
  next
    case False
    then show ?thesis using 3 by (auto simp: isAsciiCode_def)
  qed
qed

lemma codePointAt_ascii_iff:
  "isAsciiCode (codePointAt s i) \<longleftrightarrow> unat (s ! i) \<le> 0x7F"
proof (cases "isLead (unat (s ! i)) \<and> i + 1 < length s \<and> isTrail (unat (s ! (i + 1)))")
  case True
  then have "\<not> unat (s ! i) \<le> 0x7F" by (simp add: isLead_def)
  moreover have "\<not> isAsciiCode (pairCodePoint (unat (s ! i)) (unat (s ! (i + 1))))"
    using pairCodePoint_big[of "unat (s ! i)" "unat (s ! (i + 1))"] by (simp add: isAsciiCode_def)
  ultimately show ?thesis using True by (simp add: codePointAt_def Let_def)
next
  case False
  then show ?thesis by (auto simp: codePointAt_def Let_def isAsciiCode_def)
qed

text \<open>A line with a wide round has \<open>hasGlyph\<close>.\<close>

lemma wide_hasGlyph:
  assumes "i < length tx" "wideRound (defaultOnly_of m tx) tx i"
  shows "hasGlyph_of m (defaultOnly_of m tx) tx"
proof (cases m)
  case ModeAuto
  with assms(2) show ?thesis
    by (auto simp: wideRound_def defaultOnly_of_def hasGlyph_of_def)
next
  case ModeMixed
  with assms(2) have "\<not> isAsciiCode (codePointAt tx i)"
    by (auto simp: wideRound_def defaultOnly_of_def)
  then have "\<not> unat (tx ! i) \<le> 0x7F" by (simp add: codePointAt_ascii_iff)
  with assms(1) have "\<not> (\<forall>u \<in> set tx. unat u \<le> 0x7F)" by (metis nth_mem)
  then have "\<not> list_all isAsciiCode (codePoints tx)" by (simp add: codePoints_ascii_iff)
  then have "list_ex (\<lambda>cp. \<not> isAsciiCode cp) (codePoints tx)"
    by (simp add: list_ex_iff list_all_iff)
  with ModeMixed show ?thesis by (simp add: hasGlyph_of_def)
next
  case ModeDefault
  with assms(2) show ?thesis by (simp add: wideRound_def defaultOnly_of_def)
next
  case ModeGlyph
  then show ?thesis by (simp add: hasGlyph_of_def)
qed

lemma lineH_of_baseline [simp]: "lineH_of (opt\<lparr>baseline := b\<rparr>) dOnly = lineH_of opt dOnly"
  by (simp add: lineH_of_def)

lemma closure_of_baseline [simp]:
  "closure_of (opt\<lparr>baseline := b\<rparr>) dOnly a this refC = closure_of opt dOnly a this refC"
  by (simp add: closure_of_def)

lemma refCenter_wide:
  "b \<noteq> BaselineAscii \<Longrightarrow>
   refCenter_of (opt\<lparr>baseline := b\<rparr>) True a g00 =
     (case g00 of Some g \<Rightarrow> centerRow (vmet g) | None \<Rightarrow> js_mul (centerRow (vmet a)) (Finite 2))"
  by (simp add: refCenter_of_def)

lemma draw_baseline_wide:
  assumes "hasGlyph_of (mode opt) (defaultOnly_of (mode opt) tx) tx"
  shows "draw images this tx (opt\<lparr>baseline := BaselineAuto\<rparr>)
       = draw images this tx (opt\<lparr>baseline := BaselineGlyph\<rparr>)"
  unfolding draw_def using assms
  by (simp add: Let_def refCenter_wide split: option.split)

lemma refCenter_closureFor:
  "refCenter (closureFor images this tx opt a) =
     refCenter_of opt (hasGlyph_of (mode opt) (defaultOnly_of (mode opt) tx) tx) a
       (glyphs (rendererAfter images this tx opt) ''00'')"
  by (simp add: closureFor_def closure_of_def)

text \<open>The vertical offset of the quad of a round.\<close>

lemma js_mul_commute: "js_mul a b = js_mul b a"
  by (cases a; cases b) (simp_all add: js_mul.simps mult.commute)

lemma round_offset:
  assumes "codePointAt tx i \<noteq> 32"
  shows "q_y (last (spans (drawStep c tx i st))) =
     js_round (js_mul (c_scale c) (js_sub (refCenter c)
       (if wideRound (defaultOnly c) tx i
        then js_mul (centerRow (vmet (snd (glyphPack c (codeHi (codePointAt tx i)))))) (Finite 1)
        else js_mul (centerRow (vmet (asciiPack c))) (c_ds c))))"
proof (cases "wideRound (defaultOnly c) tx i")
  case True
  then show ?thesis
    by (simp add: drawStep_wide pushGlyph_quad dp_def js_mul_commute)
next
  case False
  with round_cases[OF assms, of "defaultOnly c"]
  have "defaultOnly c = Some True \<or> (defaultOnly c = None \<and> isAsciiCode (codePointAt tx i))"
    by blast
  then have "drawStep c tx i st = pushAscii c (codePointAt tx i) st"
    by (rule drawStep_ascii[OF assms])
  then show ?thesis using False
    by (simp add: pushAscii_quad dp_def js_mul_commute)
qed

text \<open>A center that is a double is its own product with 1.0.\<close>

lemma js_mul_one: "isDouble a \<Longrightarrow> js_mul a (Finite 1) = a"
  by (cases a) (simp_all add: js_mul.simps isDouble_def)

text \<open>
  Claim C7 (baseline unification). When the line has a wide glyph, baseline \<open>auto\<close>
  gives the same call as baseline \<open>glyph\<close> (the specification's "wide"), and under
  either the reference center is the center of wide page "00" when it is loaded and
  the ASCII center times 2 otherwise. Under any baseline there is one quad per round
  that is not a space, and its vertical offset is
  \<open>round(scale * (referenceCenter - own center))\<close> in the arithmetic of doubles, the
  own center being the ASCII center times \<open>ds\<close> for an ASCII quad and the center of its
  pack times 1.0 for a wide quad, which is the center itself when it is a double (as
  every center that \<open>_buildVerticalMetrics\<close> computes is).
\<close>

theorem baseline_unification:
  assumes d: "draw images this tx opt = (Inr (Some pl), this')" and a: "ascii this = Some a"
  shows "((\<exists>i < length tx. wideRound (defaultOnly_of (mode opt) tx) tx i) \<longrightarrow>
            draw images this tx (opt\<lparr>baseline := BaselineAuto\<rparr>)
              = draw images this tx (opt\<lparr>baseline := BaselineGlyph\<rparr>)
          \<and> (baseline opt \<noteq> BaselineAscii \<longrightarrow>
               p_refCenter pl =
                 (case glyphs this' ''00'' of
                    Some g \<Rightarrow> centerRow (vmet g)
                  | None \<Rightarrow> js_mul (centerRow (vmet a)) (Finite 2))))
       \<and> length (p_spans pl) = quadIndex tx (length tx)
       \<and> (\<forall>i < length tx. codePointAt tx i \<noteq> 32 \<longrightarrow>
            q_y (p_spans pl ! quadIndex tx i) =
              js_round (js_mul (scale opt) (js_sub (p_refCenter pl)
                (if wideRound (defaultOnly_of (mode opt) tx) tx i
                 then js_mul (centerRow (vmet (snd (glyphPack (closureFor images this tx opt a)
                                                      (codeHi (codePointAt tx i))))))
                             (Finite 1)
                 else js_mul (centerRow (vmet a)) (ds opt))))
            \<and> (isDouble (centerRow (vmet (snd (glyphPack (closureFor images this tx opt a)
                                                          (codeHi (codePointAt tx i)))))) \<longrightarrow>
                 js_mul (centerRow (vmet (snd (glyphPack (closureFor images this tx opt a)
                                                        (codeHi (codePointAt tx i))))))
                        (Finite 1)
                 = centerRow (vmet (snd (glyphPack (closureFor images this tx opt a)
                                                   (codeHi (codePointAt tx i)))))))"
proof -
  let ?c = "closureFor images this tx opt a"
  from draw_plan[OF d] a have t: "this' = rendererAfter images this tx opt"
    and s: "p_spans pl = spans (stateAt ?c tx (length tx))"
    and r: "p_refCenter pl = refCenter ?c"
    by auto
  have first: "draw images this tx (opt\<lparr>baseline := BaselineAuto\<rparr>)
              = draw images this tx (opt\<lparr>baseline := BaselineGlyph\<rparr>)
          \<and> (baseline opt \<noteq> BaselineAscii \<longrightarrow>
               p_refCenter pl =
                 (case glyphs this' ''00'' of
                    Some g \<Rightarrow> centerRow (vmet g)
                  | None \<Rightarrow> js_mul (centerRow (vmet a)) (Finite 2)))"
    if "\<exists>i < length tx. wideRound (defaultOnly_of (mode opt) tx) tx i"
  proof -
    from that obtain i where "i < length tx" "wideRound (defaultOnly_of (mode opt) tx) tx i"
      by blast
    then have hg: "hasGlyph_of (mode opt) (defaultOnly_of (mode opt) tx) tx"
      by (rule wide_hasGlyph)
    have "p_refCenter pl =
            (case glyphs this' ''00'' of
               Some g \<Rightarrow> centerRow (vmet g)
             | None \<Rightarrow> js_mul (centerRow (vmet a)) (Finite 2))"
      if "baseline opt \<noteq> BaselineAscii"
      using refCenter_wide[OF that, of opt a "glyphs this' ''00''"] hg
      by (simp add: r refCenter_closureFor t)
    with draw_baseline_wide[OF hg] show ?thesis by blast
  qed
  have len: "length (p_spans pl) = quadIndex tx (length tx)"
    unfolding s by (rule length_spans_stateAt)
  have off: "q_y (p_spans pl ! quadIndex tx i) =
              js_round (js_mul (scale opt) (js_sub (p_refCenter pl)
                (if wideRound (defaultOnly_of (mode opt) tx) tx i
                 then js_mul (centerRow (vmet (snd (glyphPack ?c (codeHi (codePointAt tx i))))))
                             (Finite 1)
                 else js_mul (centerRow (vmet a)) (ds opt))))"
    if "i < length tx" "codePointAt tx i \<noteq> 32" for i
    using emitted_quad(2)[OF that, of ?c] round_offset[OF that(2), of ?c "stateAt ?c tx i"]
    by (simp add: s r)
  have one: "isDouble (centerRow (vmet (snd (glyphPack ?c (codeHi (codePointAt tx i)))))) \<longrightarrow>
             js_mul (centerRow (vmet (snd (glyphPack ?c (codeHi (codePointAt tx i)))))) (Finite 1)
             = centerRow (vmet (snd (glyphPack ?c (codeHi (codePointAt tx i)))))" for i
    by (simp add: js_mul_one)
  from first len off one show ?thesis by blast
qed


lemma tie_values:
  "js_mul (Finite (7 / 2)) (Finite (3 / 2)) = Finite (21 / 4)"
  "js_sub (Finite 7) (Finite (21 / 4)) = Finite (7 / 4)"
  "js_round (js_mul (Finite 3) (Finite (7 / 4))) = Finite 5"
  "js_mul fiveSixths (Finite 1) = fiveSixths"
  "js_sub (Finite 7) fiveSixths = Finite (6943049425529515 / 1125899906842624)"
  "js_round (js_mul (Finite 3) (Finite (6943049425529515 / 1125899906842624))) = Finite 19"
  by (simp_all add: js_mul.simps js_sub_def js_add.simps js_neg.simps js_round.simps
      fiveSixths_def toDouble_def roundMagnitude_def quantum_def exponentOf_def
      roundTiesToEven_def Let_def compute_bitlen)

theorem baseline_unification_witness:
  "\<exists>pl. draw noImages tieRenderer [0x41, 0xAC00]
            (defaultOpts\<lparr>scale := Finite 3, baseline := BaselineAuto, mode := ModeMixed\<rparr>)
          = (Inr (Some pl), tieRenderer)
     \<and> draw noImages tieRenderer [0x41, 0xAC00]
            (defaultOpts\<lparr>scale := Finite 3, baseline := BaselineAuto, mode := ModeMixed,
                          baseline := BaselineAuto\<rparr>)
       = draw noImages tieRenderer [0x41, 0xAC00]
            (defaultOpts\<lparr>scale := Finite 3, baseline := BaselineAuto, mode := ModeMixed,
                          baseline := BaselineGlyph\<rparr>)
     \<and> p_refCenter pl = Finite 7
     \<and> length (p_spans pl) = 2
     \<and> q_y (p_spans pl ! 0) = Finite 5
     \<and> q_y (p_spans pl ! 1) = Finite 19"
proof -
  let ?tx = "[0x41, 0xAC00] :: jsstring"
  let ?o = "defaultOpts\<lparr>scale := Finite 3, baseline := BaselineAuto, mode := ModeMixed\<rparr>"
  let ?c = "closureFor noImages tieRenderer ?tx ?o asciiExample"
  have a: "ascii tieRenderer = Some asciiExample" by (simp add: tieRenderer_def)
  have m: "mode ?o = ModeMixed" by simp
  have cached: "\<forall>hi \<in> need_of (mode ?o) (defaultOnly_of (mode ?o) ?tx) ?tx.
                  glyphs tieRenderer hi \<noteq> None"
    unfolding m by (simp add: example_defaultOnly example_need tieRenderer_def)
  have ra: "rendererAfter noImages tieRenderer ?tx ?o = tieRenderer"
    by (rule rendererAfter_cached[OF cached])
  have l: "fst (ensureGlyphPacks noImages (need_of (mode ?o) (defaultOnly_of (mode ?o) ?tx) ?tx)
                  (glyphs tieRenderer)) = {}"
    using ensure_cached[OF cached] by simp
  obtain pl where pl: "draw noImages tieRenderer ?tx ?o = (Inr (Some pl), tieRenderer)"
    using draw_succeeds[OF a l] ra by auto
  have w1: "wideRound (defaultOnly_of (mode ?o) ?tx) ?tx 1"
    using example_text(3) by (simp add: wideRound_def example_defaultOnly isAsciiCode_def)
  have w0: "\<not> wideRound (defaultOnly_of (mode ?o) ?tx) ?tx 0"
    by (simp add: wideRound_def example_text example_defaultOnly isAsciiCode_def)
  have ex: "\<exists>i < length ?tx. wideRound (defaultOnly_of (mode ?o) ?tx) ?tx i"
    using w1 by (intro exI[of _ 1]) simp
  have b: "baseline ?o \<noteq> BaselineAscii" by simp
  have g00: "glyphs tieRenderer ''00'' = Some sevenExample" by (simp add: tieRenderer_def)
  have "codeHi (codePointAt ?tx 1) = ''AC''"
    using example_text(3) by (simp add: codeHi_examples)
  moreover have "c_glyphs ?c ''AC'' = glyphs tieRenderer ''AC''" by (simp add: ra)
  moreover have "glyphs tieRenderer ''AC'' = Some lowExample"
    by (simp add: tieRenderer_def)
  ultimately have gp: "glyphPack ?c (codeHi (codePointAt ?tx 1)) = (GlyphPack ''AC'', lowExample)"
    by (simp add: glyphPack_def)
  have "quadIndex ?tx (Suc 0) = 1" "quadIndex ?tx (Suc (Suc 0)) = 2"
    by (simp_all add: quadIndex_Suc example_text)
  then have qi: "quadIndex ?tx 0 = 0" "quadIndex ?tx 1 = 1" "quadIndex ?tx (length ?tx) = 2"
    by simp_all
  have ns: "codePointAt ?tx 0 \<noteq> 32" "codePointAt ?tx 1 \<noteq> 32"
    using example_text by simp_all
  have sc: "scale ?o = Finite 3" "ds ?o = Finite (3 / 2)" by (simp_all add: defaultOpts_def)
  have cr: "centerRow (vmet asciiExample) = Finite (7 / 2)"
    "centerRow (vmet lowExample) = fiveSixths" "centerRow (vmet sevenExample) = Finite 7"
    by (simp_all add: asciiExample_def lowExample_def sevenExample_def)
  note bu = baseline_unification[OF pl a]
  from bu ex b have eq: "draw noImages tieRenderer ?tx (?o\<lparr>baseline := BaselineAuto\<rparr>)
              = draw noImages tieRenderer ?tx (?o\<lparr>baseline := BaselineGlyph\<rparr>)"
    and rc: "p_refCenter pl = (case glyphs tieRenderer ''00'' of
                    Some g \<Rightarrow> centerRow (vmet g)
                  | None \<Rightarrow> js_mul (centerRow (vmet asciiExample)) (Finite 2))"
    by blast+
  have rc': "p_refCenter pl = Finite 7" unfolding rc g00 by (simp add: cr)
  from bu have len: "length (p_spans pl) = 2" unfolding qi by blast
  from bu have off: "\<And>i. i < length ?tx \<Longrightarrow> codePointAt ?tx i \<noteq> 32 \<Longrightarrow>
            q_y (p_spans pl ! quadIndex ?tx i) =
              js_round (js_mul (scale ?o) (js_sub (p_refCenter pl)
                (if wideRound (defaultOnly_of (mode ?o) ?tx) ?tx i
                 then js_mul (centerRow (vmet (snd (glyphPack ?c (codeHi (codePointAt ?tx i))))))
                             (Finite 1)
                 else js_mul (centerRow (vmet asciiExample)) (ds ?o))))"
    by blast
  have y0: "q_y (p_spans pl ! 0) = Finite 5"
    using off[of 0] ns(1) w0 unfolding qi rc' sc by (simp add: cr tie_values)
  have y1: "q_y (p_spans pl ! 1) = Finite 19"
    using off[of 1] ns(2) w1 unfolding qi rc' gp sc by (simp add: cr tie_values)
  from pl eq rc' len y0 y1 show ?thesis by blast
qed

subsection \<open>Wide glyphs\<close>










subsection \<open>Spaces in mixed mode\<close>











subsection \<open>The pen never moves left\<close>

text \<open>NaN spreads: a pen that is NaN stays NaN, and a step that is a number had number parts.\<close>

lemma dp_strict: "dp sc n \<noteq> NaN \<Longrightarrow> n \<noteq> NaN \<and> sc \<noteq> NaN"
  unfolding dp_def using js_round_strict js_mul_strict by blast

lemma js_lt_le: "js_lt a b \<Longrightarrow> js_le a b"
  by (cases a; cases b) (simp_all add: js_lt.simps js_le.simps)

lemma dp_nonneg:
  assumes "js_le (Finite 0) sc" "js_le (Finite 0) n" "dp sc n \<noteq> NaN"
  shows "js_le (Finite 0) (dp sc n)"
proof -
  from assms(3) have "js_mul n sc \<noteq> NaN" unfolding dp_def by (rule js_round_strict)
  from js_mul_nonneg[OF assms(2,1) this] show ?thesis
    unfolding dp_def by (rule js_round_nonneg)
qed

lemma advance_nonneg:
  assumes "js_le (Finite 0) sc" "js_le (Finite 0) n" "js_le (Finite 0) k"
    and "js_round (js_mul (dp sc n) k) \<noteq> NaN"
  shows "js_le (Finite 0) (js_round (js_mul (dp sc n) k))"
proof -
  from assms(4) have m: "js_mul (dp sc n) k \<noteq> NaN" by (rule js_round_strict)
  then have "dp sc n \<noteq> NaN" using js_mul_strict by blast
  from dp_nonneg[OF assms(1,2) this] have "js_le (Finite 0) (dp sc n)" .
  from js_mul_nonneg[OF this assms(3) m] show ?thesis by (rule js_round_nonneg)
qed

lemma advOr_nonneg: "0 \<le> d \<Longrightarrow> js_le (Finite 0) (advOr p i d)"
  by (simp add: advOr_def js_le.simps split: option.split)

lemma scaled_advance_nonneg:
  assumes "js_le (Finite 0) sc" "js_le (Finite 0) s" "js_le (Finite 0) k" "0 \<le> d"
    and "js_round (js_mul (dp sc (js_mul (advOr p i d) s)) k) \<noteq> NaN"
  shows "js_le (Finite 0) (js_round (js_mul (dp sc (js_mul (advOr p i d) s)) k))"
proof -
  from assms(5) have "js_mul (dp sc (js_mul (advOr p i d) s)) k \<noteq> NaN" by (rule js_round_strict)
  then have "dp sc (js_mul (advOr p i d) s) \<noteq> NaN" using js_mul_strict by blast
  then have "js_mul (advOr p i d) s \<noteq> NaN" using dp_strict by blast
  from js_mul_nonneg[OF advOr_nonneg[OF assms(4)] assms(2) this]
  have "js_le (Finite 0) (js_mul (advOr p i d) s)" .
  from advance_nonneg[OF assms(1) this assms(3) assms(5)] show ?thesis .
qed

lemma pad_nonneg:
  assumes "js_le (Finite 0) sc" "js_lt (Finite 0) pad" "js_round (js_mul sc pad) \<noteq> NaN"
  shows "js_le (Finite 0) (js_round (js_mul sc pad))"
proof -
  from assms(3) have "js_mul sc pad \<noteq> NaN" by (rule js_round_strict)
  from js_mul_nonneg[OF assms(1) js_lt_le[OF assms(2)] this] show ?thesis
    by (rule js_round_nonneg)
qed

text \<open>The pen at which a quad is pushed is not left of the pen before.\<close>

lemma padded_pen:
  assumes "js_le (Finite 0) sc" "isDouble p" "p \<noteq> NaN"
    and "q = (if b \<and> js_lt (Finite 0) pad then js_add p (js_round (js_mul sc pad)) else p)"
    and "q \<noteq> NaN"
  shows "js_le p q" and "isDouble q"
proof -
  show "isDouble q" using assms(2,4) by simp
  show "js_le p q"
  proof (cases "b \<and> js_lt (Finite 0) pad")
    case True
    then have q: "q = js_add p (js_round (js_mul sc pad))" using assms(4) by simp
    then have "js_round (js_mul sc pad) \<noteq> NaN" using assms(5) js_add_strict by blast
    from pad_nonneg[OF assms(1) _ this] True
    have "js_le (Finite 0) (js_round (js_mul sc pad))" by simp
    from js_add_increases[OF assms(2) this] assms(5) show ?thesis unfolding q by simp
  next
    case False
    with assms(4) have "q = p" by simp
    then show ?thesis using assms(3) by (simp add: js_le_refl)
  qed
qed

lemma asciiPen_ge:
  assumes "nonneg c" "isDouble (penX st)" "asciiPen c st \<noteq> NaN"
  shows "js_le (penX st) (asciiPen c st)" and "isDouble (asciiPen c st)"
proof -
  have sc: "js_le (Finite 0) (c_scale c)" using assms(1) by (simp add: nonneg_def)
  have e: "asciiPen c st =
      (if (defaultOnly c = None \<and> prevKind st = Some KindGlyph) \<and> js_lt (Finite 0) (c_asciiAfterGlyphPadPx c)
       then js_add (penX st) (js_round (js_mul (c_scale c) (c_asciiAfterGlyphPadPx c)))
       else penX st)"
    by (simp add: asciiPen_def)
  have p: "penX st \<noteq> NaN"
    using assms(3) unfolding e by (auto split: if_splits dest: js_add_strict)
  from padded_pen[OF sc assms(2) p e assms(3)]
  show "js_le (penX st) (asciiPen c st)" and "isDouble (asciiPen c st)" .
qed

lemma glyphPen_ge:
  assumes "nonneg c" "isDouble (penX st)" "glyphPen c st \<noteq> NaN"
  shows "js_le (penX st) (glyphPen c st)" and "isDouble (glyphPen c st)"
proof -
  have sc: "js_le (Finite 0) (c_scale c)" using assms(1) by (simp add: nonneg_def)
  have e: "glyphPen c st =
      (if prevKind st = Some KindGlyph \<and> js_lt (Finite 0) (c_glyphTrackPx c)
       then js_add (penX st) (js_round (js_mul (c_scale c) (c_glyphTrackPx c)))
       else penX st)"
    by (auto simp: glyphPen_def)
  have p: "penX st \<noteq> NaN"
    using assms(3) unfolding e by (auto split: if_splits dest: js_add_strict)
  from padded_pen[OF sc assms(2) p e assms(3)]
  show "js_le (penX st) (glyphPen c st)" and "isDouble (glyphPen c st)" .
qed

lemma pushAscii_pen:
  assumes "nonneg c" "isDouble (penX st)" "penX (pushAscii c code st) \<noteq> NaN"
  shows "js_le (penX st) (q_x (last (spans (pushAscii c code st))))"
    and "js_le (q_x (last (spans (pushAscii c code st)))) (penX (pushAscii c code st))"
proof -
  let ?a = "js_round (js_mul (dp (c_scale c) (js_mul (advOr (asciiPack c) code 9) (c_ds c)))
                             (c_spacingMul c))"
  have e: "penX (pushAscii c code st) = js_add (asciiPen c st) ?a" by (rule pushAscii_penX)
  from assms(3) have n: "asciiPen c st \<noteq> NaN" "?a \<noteq> NaN"
    unfolding e using js_add_strict by blast+
  note g = asciiPen_ge[OF assms(1,2) n(1)]
  show "js_le (penX st) (q_x (last (spans (pushAscii c code st))))"
    using g(1) by (simp add: pushAscii_quad)
  have "js_le (Finite 0) ?a"
    using assms(1) unfolding nonneg_def by (intro scaled_advance_nonneg n(2)) simp_all
  from js_add_increases[OF g(2) this] assms(3)
  show "js_le (q_x (last (spans (pushAscii c code st)))) (penX (pushAscii c code st))"
    unfolding e by (simp add: pushAscii_quad)
qed

lemma pushGlyph_pen:
  assumes "nonneg c" "isDouble (penX st)" "penX (pushGlyph c code st) \<noteq> NaN"
  shows "js_le (penX st) (q_x (last (spans (pushGlyph c code st))))"
    and "js_le (q_x (last (spans (pushGlyph c code st)))) (penX (pushGlyph c code st))"
proof -
  let ?a = "js_round (js_mul (dp (c_scale c)
                                 (advOr (snd (glyphPack c (codeHi code))) (codeLo code) 17))
                             (c_spacingMul c))"
  have e: "penX (pushGlyph c code st) = js_add (glyphPen c st) ?a" by (rule pushGlyph_penX)
  from assms(3) have n: "glyphPen c st \<noteq> NaN" "?a \<noteq> NaN"
    unfolding e using js_add_strict by blast+
  note g = glyphPen_ge[OF assms(1,2) n(1)]
  show "js_le (penX st) (q_x (last (spans (pushGlyph c code st))))"
    using g(1) by (simp add: pushGlyph_quad)
  have "js_le (Finite 0) ?a"
    using assms(1) unfolding nonneg_def by (intro advance_nonneg advOr_nonneg n(2)) simp_all
  from js_add_increases[OF g(2) this] assms(3)
  show "js_le (q_x (last (spans (pushGlyph c code st)))) (penX (pushGlyph c code st))"
    unfolding e by (simp add: pushGlyph_quad)
qed

lemma round_pen:
  assumes "nonneg c" "codePointAt tx i \<noteq> 32" "isDouble (penX st)"
    and "penX (drawStep c tx i st) \<noteq> NaN"
  shows "js_le (penX st) (q_x (last (spans (drawStep c tx i st))))"
    and "js_le (q_x (last (spans (drawStep c tx i st)))) (penX (drawStep c tx i st))"
proof -
  from round_cases[OF assms(2), of "defaultOnly c"]
  have "drawStep c tx i st = pushGlyph c (codePointAt tx i) st
        \<or> drawStep c tx i st = pushAscii c (codePointAt tx i) st"
    using drawStep_wide[of c tx i st] drawStep_ascii[OF assms(2), of c st] by blast
  then show "js_le (penX st) (q_x (last (spans (drawStep c tx i st))))"
    and "js_le (q_x (last (spans (drawStep c tx i st)))) (penX (drawStep c tx i st))"
    using pushGlyph_pen[OF assms(1,3)] pushAscii_pen[OF assms(1,3)] assms(4) by auto
qed

lemma asciiSpace_nonneg: "nonneg c \<Longrightarrow> asciiSpace c \<noteq> NaN \<Longrightarrow> js_le (Finite 0) (asciiSpace c)"
  unfolding asciiSpace_def nonneg_def by (intro scaled_advance_nonneg) simp_all

lemma glyphSpace_nonneg: "nonneg c \<Longrightarrow> glyphSpace c \<noteq> NaN \<Longrightarrow> js_le (Finite 0) (glyphSpace c)"
proof -
  assume n: "nonneg c" and g: "glyphSpace c \<noteq> NaN"
  have "js_le (Finite 0) (case glyph00 c of Some g \<Rightarrow> advOr g 32 17 | None \<Rightarrow> Finite 17)"
    by (simp add: advOr_nonneg js_le.simps split: option.split)
  then show ?thesis
    using n g unfolding glyphSpace_def nonneg_def Let_def by (intro advance_nonneg) simp_all
qed

lemma drawStep_space_pen:
  assumes "codePointAt tx i = 32"
  shows "penX (drawStep c tx i st) = js_add (penX st) (asciiSpace c)
       \<or> penX (drawStep c tx i st) = js_add (penX st) (glyphSpace c)"
  using assms by (simp add: drawStep_def Let_def)

lemma space_pen:
  assumes "nonneg c" "codePointAt tx i = 32" "isDouble (penX st)"
    and "penX (drawStep c tx i st) \<noteq> NaN"
  shows "js_le (penX st) (penX (drawStep c tx i st))"
proof -
  from drawStep_space_pen[OF assms(2), of c st] show ?thesis
  proof
    assume e: "penX (drawStep c tx i st) = js_add (penX st) (asciiSpace c)"
    then have "asciiSpace c \<noteq> NaN" using assms(4) js_add_strict by metis
    from js_add_increases[OF assms(3) asciiSpace_nonneg[OF assms(1) this]] assms(4)
    show ?thesis unfolding e by simp
  next
    assume e: "penX (drawStep c tx i st) = js_add (penX st) (glyphSpace c)"
    then have "glyphSpace c \<noteq> NaN" using assms(4) js_add_strict by metis
    from js_add_increases[OF assms(3) glyphSpace_nonneg[OF assms(1) this]] assms(4)
    show ?thesis unfolding e by simp
  qed
qed

lemma step_pen:
  assumes "nonneg c" "isDouble (penX st)" "penX (drawStep c tx i st) \<noteq> NaN"
  shows "js_le (penX st) (penX (drawStep c tx i st))"
proof (cases "codePointAt tx i = 32")
  case True
  then show ?thesis by (rule space_pen[OF assms(1) _ assms(2,3)])
next
  case False
  from round_pen[OF assms(1) False assms(2,3)] show ?thesis by (rule js_le_trans)
qed

text \<open>The pen after a round is a double, and NaN once the pen before was.\<close>

lemma step_isDouble: "isDouble (penX st) \<Longrightarrow> isDouble (penX (drawStep c tx i st))"
proof (cases "codePointAt tx i = 32")
  case True
  from drawStep_space_pen[OF this, of c st] show ?thesis by auto
next
  case False
  from round_cases[OF False, of "defaultOnly c"]
  have "drawStep c tx i st = pushGlyph c (codePointAt tx i) st
        \<or> drawStep c tx i st = pushAscii c (codePointAt tx i) st"
    using drawStep_wide[of c tx i st] drawStep_ascii[OF False, of c st] by blast
  then show ?thesis by (auto simp: pushGlyph_penX pushAscii_penX)
qed

lemma step_NaN: "penX st = NaN \<Longrightarrow> penX (drawStep c tx i st) = NaN"
proof (cases "codePointAt tx i = 32")
  case True
  assume "penX st = NaN"
  with drawStep_space_pen[OF True, of c st] show ?thesis by auto
next
  case False
  assume n: "penX st = NaN"
  then have "asciiPen c st = NaN" "glyphPen c st = NaN"
    by (simp_all add: asciiPen_def glyphPen_def)
  moreover from round_cases[OF False, of "defaultOnly c"]
  have "drawStep c tx i st = pushGlyph c (codePointAt tx i) st
        \<or> drawStep c tx i st = pushAscii c (codePointAt tx i) st"
    using drawStep_wide[of c tx i st] drawStep_ascii[OF False, of c st] by blast
  ultimately show ?thesis by (auto simp: pushGlyph_penX pushAscii_penX)
qed

lemma pen_NaN_stays:
  assumes "penX (stateAt c tx j) = NaN" "j \<le> k"
  shows "penX (stateAt c tx k) = NaN"
  using assms(2)
proof (induction k)
  case 0
  then show ?case using assms(1) by simp
next
  case (Suc k)
  show ?case
  proof (cases "j = Suc k")
    case True
    then show ?thesis using assms(1) by simp
  next
    case False
    with Suc.prems have "j \<le> k" by simp
    from step_NaN[OF Suc.IH[OF this]] show ?thesis by (simp add: stateAt_Suc)
  qed
qed

lemma pen_isDouble: "isDouble (penX (stateAt c tx j))"
proof (induction j)
  case 0
  then show ?case by (simp add: initialState_def)
next
  case (Suc j)
  then show ?case by (simp add: stateAt_Suc step_isDouble)
qed

text \<open>While the pen is a number the quads so far are in pen order, between 0 and the pen.\<close>

lemma pen_invariant:
  assumes "nonneg c" "penX (stateAt c tx j) \<noteq> NaN"
  shows "sorted_wrt js_le (map q_x (spans (stateAt c tx j)))
       \<and> (\<forall>q \<in> set (spans (stateAt c tx j)).
             js_le (Finite 0) (q_x q) \<and> js_le (q_x q) (penX (stateAt c tx j)))
       \<and> js_le (Finite 0) (penX (stateAt c tx j))"
  using assms(2)
proof (induction j)
  case 0
  then show ?case by (simp add: initialState_def js_le.simps)
next
  case (Suc j)
  let ?st = "stateAt c tx j" and ?st' = "drawStep c tx j (stateAt c tx j)"
  have n': "penX ?st' \<noteq> NaN" using Suc.prems by (simp add: stateAt_Suc)
  have n: "penX ?st \<noteq> NaN" using step_NaN[of ?st c tx j] n' by blast
  note ih = Suc.IH[OF n]
  have mono: "js_le (penX ?st) (penX ?st')" by (rule step_pen[OF assms(1) pen_isDouble n'])
  have upto: "js_le (q_x q) (penX ?st')" if "q \<in> set (spans ?st)" for q
    using ih that mono js_le_trans by blast
  have pos: "js_le (Finite 0) (penX ?st')" using ih mono js_le_trans by blast
  show ?case
  proof (cases "codePointAt tx j = 32")
    case True
    then have "spans ?st' = spans ?st" by (rule drawStep_space)
    with ih upto pos show ?thesis by (simp add: stateAt_Suc)
  next
    case False
    then obtain q where q: "spans ?st' = spans ?st @ [q]" using drawStep_push by blast
    then have lq: "last (spans ?st') = q" by simp
    from round_pen[OF assms(1) False pen_isDouble n'] lq
    have b: "js_le (penX ?st) (q_x q)" "js_le (q_x q) (penX ?st')" by simp_all
    have before: "js_le (q_x r) (q_x q)" if "r \<in> set (spans ?st)" for r
      using ih that b(1) js_le_trans by blast
    have "sorted_wrt js_le (map q_x (spans ?st @ [q]))"
      using ih before by (simp add: sorted_wrt_append)
    moreover have "js_le (Finite 0) (q_x q)" using ih b(1) js_le_trans by blast
    then have "\<forall>r \<in> set (spans ?st @ [q]). js_le (Finite 0) (q_x r) \<and> js_le (q_x r) (penX ?st')"
      using ih upto b(2) by auto
    ultimately show ?thesis using pos unfolding stateAt_Suc q by blast
  qed
qed

lemma nonneg_closureFor:
  "nonneg (closureFor images this tx opt a) \<longleftrightarrow>
     (js_le (Finite 0) (scale opt) \<and> js_le (Finite 0) (ds opt)
      \<and> js_le (Finite 0) (spaceMul opt) \<and> js_le (Finite 0) (spacingMul opt))"
  by (simp add: nonneg_def)

text \<open>
  Claim C10, as amended (pen monotonicity). When \<open>scale\<close>, \<open>ds\<close>, \<open>spaceMul\<close>,
  \<open>spacingMul\<close>, \<open>glyphTrackPx\<close> and \<open>asciiAfterGlyphPadPx\<close> are not negative and the
  pen travel of the call is a number (not NaN), no round of the loop moves the pen to
  the left, so the quads of the plan are in pen order: each quad's x is at least that
  of every earlier quad, at least 0 and at most the final pen.
\<close>

theorem pen_monotone:
  assumes "js_le (Finite 0) (scale opt)" "js_le (Finite 0) (ds opt)"
    and "js_le (Finite 0) (spaceMul opt)" "js_le (Finite 0) (spacingMul opt)"
    and "js_le (Finite 0) (glyphTrackPx opt)" "js_le (Finite 0) (asciiAfterGlyphPadPx opt)"
    and d: "draw images this tx opt = (Inr (Some pl), this')" and a: "ascii this = Some a"
    and f: "p_penX pl \<noteq> NaN"
  shows "(\<forall>i < length tx.
            js_le (penX (stateAt (closureFor images this tx opt a) tx i))
                  (penX (stateAt (closureFor images this tx opt a) tx (Suc i))))
       \<and> sorted_wrt js_le (map q_x (p_spans pl))
       \<and> (\<forall>q \<in> set (p_spans pl). js_le (Finite 0) (q_x q) \<and> js_le (q_x q) (p_penX pl))"
proof -
  let ?c = "closureFor images this tx opt a"
  have n: "nonneg ?c" using assms(1-4) by (simp add: nonneg_closureFor)
  from draw_plan[OF d] a have s: "p_spans pl = spans (stateAt ?c tx (length tx))"
    and p: "p_penX pl = penX (stateAt ?c tx (length tx))"
    by auto
  have fin: "penX (stateAt ?c tx (length tx)) \<noteq> NaN" using f p by simp
  have "js_le (penX (stateAt ?c tx i)) (penX (stateAt ?c tx (Suc i)))" if "i < length tx" for i
  proof -
    have "penX (stateAt ?c tx (Suc i)) \<noteq> NaN"
      using pen_NaN_stays[of ?c tx "Suc i" "length tx"] that fin by auto
    then show ?thesis
      unfolding stateAt_Suc by (intro step_pen[OF n pen_isDouble])
  qed
  with pen_invariant[OF n fin] show ?thesis
    unfolding s p by blast
qed


lemma pushAscii_prevKind: "prevKind (pushAscii c code st) = Some KindAscii"
  by (simp add: pushAscii_def Let_def split: prod.splits)

lemma pen_values:
  "js_round (js_mul (dp (Finite 2) (js_mul (Finite 6) (Finite (3 / 2)))) (Finite 1)) = Finite 18"
  "js_round (js_mul (dp (Finite 2) (Finite 12)) (Finite 1)) = Finite 24"
  "js_add (Finite 0) (Finite 18) = Finite 18" "js_add (Finite 18) (Finite 24) = Finite 42"
  by (simp_all add: dp_def js_mul.simps js_round.simps js_add.simps toDouble_def
      roundMagnitude_def quantum_def exponentOf_def roundTiesToEven_def Let_def compute_bitlen)

theorem pen_monotone_witness:
  "\<exists>pl. draw noImages exampleRenderer [0x41, 0xAC00] (defaultOpts\<lparr>mode := ModeMixed\<rparr>)
          = (Inr (Some pl), exampleRenderer)
     \<and> penX (stateAt (closureFor noImages exampleRenderer [0x41, 0xAC00]
                        (defaultOpts\<lparr>mode := ModeMixed\<rparr>) asciiExample) [0x41, 0xAC00] 0)
         = Finite 0
     \<and> penX (stateAt (closureFor noImages exampleRenderer [0x41, 0xAC00]
                        (defaultOpts\<lparr>mode := ModeMixed\<rparr>) asciiExample) [0x41, 0xAC00] (Suc 0))
         = Finite 18
     \<and> p_penX pl = Finite 42
     \<and> sorted_wrt js_le (map q_x (p_spans pl))
     \<and> list_all (\<lambda>q. js_le (Finite 0) (q_x q) \<and> js_le (q_x q) (Finite 42)) (p_spans pl)"
proof -
  let ?tx = "[0x41, 0xAC00] :: jsstring"
  let ?o = "defaultOpts\<lparr>mode := ModeMixed\<rparr>"
  let ?c = "closureFor noImages exampleRenderer ?tx ?o asciiExample"
  have a: "ascii exampleRenderer = Some asciiExample" by (simp add: exampleRenderer_def)
  have ra: "rendererAfter noImages exampleRenderer ?tx ?o = exampleRenderer"
    by (rule example_after) simp
  obtain pl where pl: "draw noImages exampleRenderer ?tx ?o = (Inr (Some pl), exampleRenderer)"
    using draw_succeeds[OF a, of noImages ?o ?tx] example_loaded[of ModeMixed] ra by auto
  have o: "js_le (Finite 0) (scale ?o)" "js_le (Finite 0) (ds ?o)"
    "js_le (Finite 0) (spaceMul ?o)" "js_le (Finite 0) (spacingMul ?o)"
    "js_le (Finite 0) (glyphTrackPx ?o)" "js_le (Finite 0) (asciiAfterGlyphPadPx ?o)"
    by (simp_all add: defaultOpts_def js_le.simps)
  have v: "scale ?o = Finite 2" "ds ?o = Finite (3 / 2)" "spacingMul ?o = Finite 1"
    by (simp_all add: defaultOpts_def)
  have d: "defaultOnly ?c = None" by (simp add: example_defaultOnly)
  have s0: "penX (stateAt ?c ?tx 0) = Finite 0" by (simp add: initialState_def)
  have r0: "drawStep ?c ?tx 0 (stateAt ?c ?tx 0) = pushAscii ?c 65 (stateAt ?c ?tx 0)"
    using drawStep_ascii[of ?tx 0 ?c "stateAt ?c ?tx 0"] d
    by (simp add: example_text isAsciiCode_def)
  have a65: "advOr asciiExample 65 9 = Finite 6" by (simp add: advOr_def advAt_def asciiExample_def)
  have s1: "penX (stateAt ?c ?tx (Suc 0)) = Finite 18"
    unfolding stateAt_Suc r0 pushAscii_penX
    by (simp add: asciiPen_def initialState_def a65 v pen_values)
  have k1: "prevKind (stateAt ?c ?tx (Suc 0)) = Some KindAscii"
    unfolding stateAt_Suc r0 by (rule pushAscii_prevKind)
  have w1: "wideRound (defaultOnly ?c) ?tx (Suc 0)"
    using example_text(3) by (simp add: wideRound_def example_defaultOnly isAsciiCode_def)
  have r1: "drawStep ?c ?tx (Suc 0) (stateAt ?c ?tx (Suc 0)) = pushGlyph ?c 44032 (stateAt ?c ?tx (Suc 0))"
    using drawStep_wide[OF w1] example_text(3) by simp
  have "c_glyphs ?c ''AC'' = glyphs exampleRenderer ''AC''" by (simp add: ra)
  also have "\<dots> = Some wideExample" by (simp add: exampleRenderer_def)
  finally have gp: "snd (glyphPack ?c ''AC'') = wideExample" by (simp add: glyphPack_def)
  have lo: "codeLo 44032 = 0" by (simp add: codeLo_def)
  have g0: "advOr wideExample 0 17 = Finite 12" by (simp add: advOr_def advAt_def wideExample_def)
  have s2: "penX (stateAt ?c ?tx (Suc (Suc 0))) = Finite 42"
    unfolding stateAt_Suc[of ?c ?tx "Suc 0"] r1 pushGlyph_penX codeHi_examples gp lo g0
    by (simp add: glyphPen_def k1 s1 v pen_values)
  have len: "length ?tx = Suc (Suc 0)" by simp
  from draw_plan[OF pl] a have "p_penX pl = penX (stateAt ?c ?tx (length ?tx))" by auto
  then have p: "p_penX pl = Finite 42" unfolding len s2 .
  then have f: "p_penX pl \<noteq> NaN" by simp
  from pen_monotone[OF o pl a f]
  have "sorted_wrt js_le (map q_x (p_spans pl))"
    and "\<forall>q \<in> set (p_spans pl). js_le (Finite 0) (q_x q) \<and> js_le (q_x q) (p_penX pl)"
    by blast+
  then have "sorted_wrt js_le (map q_x (p_spans pl))"
    and "list_all (\<lambda>q. js_le (Finite 0) (q_x q) \<and> js_le (q_x q) (Finite 42)) (p_spans pl)"
    unfolding p by (simp_all add: list_all_iff)
  with pl s0 s1 p show ?thesis by blast
qed

text \<open>
  The claim as first worded, with no condition on the pen travel, fails: a scale of
  \<open>2^1023\<close> with \<open>spacingMul = 0\<close> makes \<open>dp\<close> overflow to infinity, the product of
  infinity and 0 is NaN, and a pen that is NaN is not at or right of any pen before.
\<close>

lemma overflow_values:
  "js_mul (Finite 6) (Finite (3 / 2)) = Finite 9"
  "js_mul (Finite 9) hugeScale = PInf"
  "js_mul PInf (Finite 0) = NaN"
proof -
  show "js_mul (Finite 6) (Finite (3 / 2)) = Finite 9"
    using toDouble_int[of 9] by (simp add: js_mul.simps)
  have "(2::real) ^ 1024 \<le> 9 * 2 ^ 1023" by simp
  from toDouble_overflow[OF this] show "js_mul (Finite 9) hugeScale = PInf"
    unfolding hugeScale_def by (simp only: js_mul.simps)
  show "js_mul PInf (Finite 0) = NaN" by (simp add: js_mul.simps)
qed

lemma hugeScale_nonneg: "js_le (Finite 0) hugeScale"
  by (simp add: hugeScale_def js_le.simps)

theorem pen_monotone_counterexample:
  "js_le (Finite 0) (scale (defaultOpts\<lparr>scale := hugeScale, spacingMul := Finite 0,
                                        mode := ModeDefault\<rparr>))
   \<and> js_le (Finite 0) (ds (defaultOpts\<lparr>scale := hugeScale, spacingMul := Finite 0,
                                       mode := ModeDefault\<rparr>))
   \<and> js_le (Finite 0) (spaceMul (defaultOpts\<lparr>scale := hugeScale, spacingMul := Finite 0,
                                             mode := ModeDefault\<rparr>))
   \<and> js_le (Finite 0) (spacingMul (defaultOpts\<lparr>scale := hugeScale, spacingMul := Finite 0,
                                               mode := ModeDefault\<rparr>))
   \<and> js_le (Finite 0) (glyphTrackPx (defaultOpts\<lparr>scale := hugeScale, spacingMul := Finite 0,
                                                 mode := ModeDefault\<rparr>))
   \<and> js_le (Finite 0) (asciiAfterGlyphPadPx (defaultOpts\<lparr>scale := hugeScale,
                                                         spacingMul := Finite 0,
                                                         mode := ModeDefault\<rparr>))
   \<and> (\<exists>pl. draw noImages exampleRenderer [0x41]
               (defaultOpts\<lparr>scale := hugeScale, spacingMul := Finite 0, mode := ModeDefault\<rparr>)
             = (Inr (Some pl), exampleRenderer)
           \<and> p_penX pl = NaN)
   \<and> \<not> js_le (penX (stateAt (closureFor noImages exampleRenderer [0x41]
                       (defaultOpts\<lparr>scale := hugeScale, spacingMul := Finite 0,
                                     mode := ModeDefault\<rparr>) asciiExample) [0x41] 0))
               (penX (stateAt (closureFor noImages exampleRenderer [0x41]
                       (defaultOpts\<lparr>scale := hugeScale, spacingMul := Finite 0,
                                     mode := ModeDefault\<rparr>) asciiExample) [0x41] (Suc 0)))"
proof -
  let ?tx = "[0x41] :: jsstring"
  let ?o = "defaultOpts\<lparr>scale := hugeScale, spacingMul := Finite 0, mode := ModeDefault\<rparr>"
  let ?c = "closureFor noImages exampleRenderer ?tx ?o asciiExample"
  have a: "ascii exampleRenderer = Some asciiExample" by (simp add: exampleRenderer_def)
  have dm: "defaultOnly_of (mode ?o) ?tx = Some True" by (simp add: defaultOnly_of_def)
  have nd: "need_of (mode ?o) (Some True) ?tx = {}" by (simp add: need_of_def)
  have cached: "\<forall>hi \<in> need_of (mode ?o) (defaultOnly_of (mode ?o) ?tx) ?tx.
                  glyphs exampleRenderer hi \<noteq> None"
    unfolding dm nd by simp
  have ra: "rendererAfter noImages exampleRenderer ?tx ?o = exampleRenderer"
    by (rule rendererAfter_cached[OF cached])
  have l: "fst (ensureGlyphPacks noImages (need_of (mode ?o) (defaultOnly_of (mode ?o) ?tx) ?tx)
                  (glyphs exampleRenderer)) = {}"
    using ensure_cached[OF cached] by simp
  obtain pl where pl: "draw noImages exampleRenderer ?tx ?o = (Inr (Some pl), exampleRenderer)"
    using draw_succeeds[OF a l] ra by auto
  have o: "js_le (Finite 0) (scale ?o)" "js_le (Finite 0) (ds ?o)"
    "js_le (Finite 0) (spaceMul ?o)" "js_le (Finite 0) (spacingMul ?o)"
    "js_le (Finite 0) (glyphTrackPx ?o)" "js_le (Finite 0) (asciiAfterGlyphPadPx ?o)"
    by (simp_all add: defaultOpts_def js_le.simps hugeScale_nonneg)
  have dv: "ds defaultOpts = Finite (3 / 2)" by (simp add: defaultOpts_def)
  have d: "defaultOnly ?c = Some True" using dm by simp
  have cp: "codePointAt ?tx 0 = 65" by (simp add: codePointAt_def isLead_def)
  have s0: "penX (stateAt ?c ?tx 0) = Finite 0" by (simp add: initialState_def)
  have r0: "drawStep ?c ?tx 0 (stateAt ?c ?tx 0) = pushAscii ?c 65 (stateAt ?c ?tx 0)"
    using drawStep_ascii[of ?tx 0 ?c "stateAt ?c ?tx 0"] d by (simp add: cp)
  have a65: "advOr asciiExample 65 9 = Finite 6" by (simp add: advOr_def advAt_def asciiExample_def)
  have "dp hugeScale (js_mul (Finite 6) (Finite (3 / 2))) = PInf"
    unfolding dp_def overflow_values by (simp add: js_round.simps)
  then have adv: "js_round (js_mul (dp hugeScale (js_mul (Finite 6) (Finite (3 / 2))))
                                   (Finite 0)) = NaN"
    by (simp add: overflow_values js_round.simps)
  have s1: "penX (stateAt ?c ?tx (Suc 0)) = NaN"
    unfolding stateAt_Suc r0 pushAscii_penX
    by (simp add: a65 dv adv)
  have len: "length ?tx = Suc 0" by simp
  from draw_plan[OF pl] a have "p_penX pl = penX (stateAt ?c ?tx (length ?tx))" by auto
  then have p: "p_penX pl = NaN" unfolding len s1 .
  have "\<not> js_le (penX (stateAt ?c ?tx 0)) (penX (stateAt ?c ?tx (Suc 0)))"
    unfolding s0 s1 by (simp add: js_le.simps)
  with o pl p show ?thesis by blast
qed

end
